theory Spec2Isabelle
  imports Main "HOL-Library.Word" "HOL-Library.AList"
begin

unbundle bit_operations_syntax

section \<open>Data model\<close>

text \<open>
  A \<open>Uint8Array\<close> is a list of bytes. A JavaScript string is a list of UTF-16 code
  units, so \<open>length\<close> of a string is what \<open>path.length\<close> counts. A content value
  is either a string or a \<open>Uint8Array\<close>. A \<open>Map\<close> is an association list in
  insertion order whose keys are pairwise different.
\<close>

type_synonym byte = "8 word"
type_synonym bytes = "byte list"
type_synonym jsstring = "16 word list"

datatype content = Text jsstring | Binary bytes

type_synonym jsmap = "(jsstring \<times> content) list"

datatype SqurpErrorCode =
    INVALID_HEADER
  | CORRUPTED_DATA
  | UNSUPPORTED_VERSION
  | PATH_TOO_LONG
  | CONTENT_TOO_LARGE
  | UNEXPECTED_END
  | ENTRY_EXCEEDS_BOUNDS

text \<open>A thrown \<open>SqurpError\<close> is \<open>Inl\<close> of its code; a returned value is \<open>Inr\<close>.\<close>

type_synonym 'a result = "SqurpErrorCode + 'a"

definition HEADER :: bytes where
  "HEADER = [0x73, 0x71, 0x75, 0x69, 0x72, 0x70, 0x00]"

section \<open>JavaScript primitives used by the codec\<close>

text \<open>
  The bitwise operators convert their operands with \<open>ToInt32\<close> and give a signed
  32-bit result. The shift count is taken modulo 32.
\<close>

definition js_and :: "int \<Rightarrow> int \<Rightarrow> int" where
  "js_and a b = sint ((word_of_int a :: 32 word) AND word_of_int b)"

definition js_or :: "int \<Rightarrow> int \<Rightarrow> int" where
  "js_or a b = sint ((word_of_int a :: 32 word) OR word_of_int b)"

definition js_shl :: "int \<Rightarrow> nat \<Rightarrow> int" where
  "js_shl a n = sint (push_bit (n mod 32) (word_of_int a :: 32 word))"

definition js_sar :: "int \<Rightarrow> nat \<Rightarrow> int" where
  "js_sar a n = sint (signed_drop_bit (n mod 32) (word_of_int a :: 32 word))"

text \<open>
  \<open>xs[i]\<close> on a typed array is \<open>undefined\<close> (here \<open>None\<close>) outside the array.
\<close>

definition js_index :: "'a list \<Rightarrow> int \<Rightarrow> 'a option" where
  "js_index xs i = (if 0 \<le> i \<and> i < int (length xs) then Some (xs ! nat i) else None)"

text \<open>
  \<open>xs.slice(start, fin)\<close>: a negative index counts from the end, both indices are
  clamped to the array, and an empty range gives the empty array.
\<close>

definition js_slice :: "'a list \<Rightarrow> int \<Rightarrow> int \<Rightarrow> 'a list" where
  "js_slice xs start fin =
     (let len = int (length xs);
          k = (if start < 0 then max (len + start) 0 else min start len);
          final = (if fin < 0 then max (len + fin) 0 else min fin len)
      in take (nat (final - k)) (drop (nat k) xs))"

text \<open>\<open>Map.prototype.set\<close>: an existing key keeps its place, a new key goes last.\<close>

definition map_set :: "jsstring \<Rightarrow> content \<Rightarrow> jsmap \<Rightarrow> jsmap" where
  "map_set k v m = AList.update k v m"

subsection \<open>\<open>TextEncoder\<close> and \<open>TextDecoder\<close>\<close>

text \<open>
  The platform's UTF-8 encoder. The string is first read as scalar values: a high
  surrogate followed by a low one is one supplementary code point, any other surrogate
  is replaced by U+FFFD.
\<close>

fun utf16_scalars :: "nat list \<Rightarrow> nat list" where
  "utf16_scalars [] = []"
| "utf16_scalars [u] = [if 0xD800 \<le> u \<and> u \<le> 0xDFFF then 0xFFFD else u]"
| "utf16_scalars (u # v # us) =
     (if 0xD800 \<le> u \<and> u \<le> 0xDBFF \<and> 0xDC00 \<le> v \<and> v \<le> 0xDFFF
      then (0x10000 + (u - 0xD800) * 0x400 + (v - 0xDC00)) # utf16_scalars us
      else (if 0xD800 \<le> u \<and> u \<le> 0xDFFF then 0xFFFD else u) # utf16_scalars (v # us))"

definition utf8_of_scalar :: "nat \<Rightarrow> nat list" where
  "utf8_of_scalar c =
     (if c < 0x80 then [c]
      else if c < 0x800 then [0xC0 + c div 0x40, 0x80 + c mod 0x40]
      else if c < 0x10000 then
        [0xE0 + c div 0x1000, 0x80 + (c div 0x40) mod 0x40, 0x80 + c mod 0x40]
      else
        [0xF0 + c div 0x40000, 0x80 + (c div 0x1000) mod 0x40,
         0x80 + (c div 0x40) mod 0x40, 0x80 + c mod 0x40])"

definition TextEncoder_encode :: "jsstring \<Rightarrow> bytes" where
  "TextEncoder_encode s =
     map of_nat (concat (map utf8_of_scalar (utf16_scalars (map unat s))))"

text \<open>
  The platform's UTF-8 decoder in replacement mode. \<open>utf8_scalars need cp lo hi bs\<close> is
  the decoder with \<open>need\<close> continuation bytes still expected for the code point \<open>cp\<close>
  and the next byte accepted in \<open>lo..hi\<close>. A byte outside that range ends the sequence
  with U+FFFD and is read again as a first byte.
\<close>

fun utf8_scalars :: "nat \<Rightarrow> nat \<Rightarrow> nat \<Rightarrow> nat \<Rightarrow> nat list \<Rightarrow> nat list" where
  "utf8_scalars 0 cp lo hi [] = []"
| "utf8_scalars (Suc n) cp lo hi [] = [0xFFFD]"
| "utf8_scalars 0 cp lo hi (b # bs) =
     (if b \<le> 0x7F then b # utf8_scalars 0 0 0x80 0xBF bs
      else if 0xC2 \<le> b \<and> b \<le> 0xDF then utf8_scalars (Suc 0) (b mod 0x20) 0x80 0xBF bs
      else if 0xE0 \<le> b \<and> b \<le> 0xEF then
        utf8_scalars (Suc (Suc 0)) (b mod 0x10)
          (if b = 0xE0 then 0xA0 else 0x80) (if b = 0xED then 0x9F else 0xBF) bs
      else if 0xF0 \<le> b \<and> b \<le> 0xF4 then
        utf8_scalars (Suc (Suc (Suc 0))) (b mod 0x08)
          (if b = 0xF0 then 0x90 else 0x80) (if b = 0xF4 then 0x8F else 0xBF) bs
      else 0xFFFD # utf8_scalars 0 0 0x80 0xBF bs)"
| "utf8_scalars (Suc n) cp lo hi (b # bs) =
     (if b < lo \<or> hi < b then 0xFFFD # utf8_scalars 0 0 0x80 0xBF (b # bs)
      else if n = 0 then (cp * 0x40 + b mod 0x40) # utf8_scalars 0 0 0x80 0xBF bs
      else utf8_scalars n (cp * 0x40 + b mod 0x40) 0x80 0xBF bs)"

definition utf16_of_scalar :: "nat \<Rightarrow> nat list" where
  "utf16_of_scalar c =
     (if c < 0x10000 then [c]
      else [0xD800 + (c - 0x10000) div 0x400, 0xDC00 + (c - 0x10000) mod 0x400])"

text \<open>
  \<open>new TextDecoder()\<close> has \<open>ignoreBOM\<close> false: a leading U+FEFF is not part of the
  decoded string.
\<close>

definition strip_bom :: "nat list \<Rightarrow> nat list" where
  "strip_bom cs = (case cs of [] \<Rightarrow> [] | c # rest \<Rightarrow> if c = 0xFEFF then rest else cs)"

definition TextDecoder_decode :: "bytes \<Rightarrow> jsstring" where
  "TextDecoder_decode bs =
     map of_nat
       (concat (map utf16_of_scalar (strip_bom (utf8_scalars 0 0 0x80 0xBF (map unat bs)))))"

section \<open>Helpers of \<open>index.ts\<close>\<close>

definition encodeText :: "jsstring \<Rightarrow> bytes" where
  "encodeText text = TextEncoder_encode text"

definition decodeText :: "bytes \<Rightarrow> jsstring" where
  "decodeText bs = TextDecoder_decode bs"

definition concatUint8Arrays :: "bytes list \<Rightarrow> bytes" where
  "concatUint8Arrays arrays = concat arrays"

text \<open>
  \<open>encodeLE\<close>: the loop writes \<open>value & 0xff\<close> into the next byte and then does
  \<open>value >>= 8\<close>. Lengths are integers, so only the sign test can throw.
\<close>

fun encodeLE_loop :: "int \<Rightarrow> nat \<Rightarrow> bytes" where
  "encodeLE_loop v 0 = []"
| "encodeLE_loop v (Suc n) = word_of_int (js_and v 0xff) # encodeLE_loop (js_sar v 8) n"

definition encodeLE :: "int \<Rightarrow> nat \<Rightarrow> bytes result" where
  "encodeLE v n = (if v < 0 then Inl CORRUPTED_DATA else Inr (encodeLE_loop v n))"

text \<open>
  \<open>decodeLE\<close>: the loop runs from the last byte down to the first with
  \<open>result = (result << 8) | byte\<close>. \<open>decodeLE_loop bs (Suc i) r\<close> is the loop about to
  read index \<open>i\<close>.
\<close>

fun decodeLE_loop :: "bytes \<Rightarrow> nat \<Rightarrow> int \<Rightarrow> int" where
  "decodeLE_loop bs 0 r = r"
| "decodeLE_loop bs (Suc i) r = decodeLE_loop bs i (js_or (js_shl r 8) (uint (bs ! i)))"

definition decodeLE :: "bytes \<Rightarrow> int" where
  "decodeLE bs = decodeLE_loop bs (length bs) 0"

section \<open>\<open>serializeFileMap\<close>\<close>

record entry =
  path :: jsstring
  isBinary :: bool
  content :: bytes

text \<open>\<open>content.length\<close> of a map value: code units of a string, bytes of an array.\<close>

fun raw_length :: "content \<Rightarrow> nat" where
  "raw_length (Text s) = length s"
| "raw_length (Binary b) = length b"

text \<open>
  The first loop: it checks the path, then the size, then encodes a string content and
  appends the entry.
\<close>

fun collectEntries :: "jsmap \<Rightarrow> entry list \<Rightarrow> entry list result" where
  "collectEntries [] entries = Inr entries"
| "collectEntries ((p, c) # rest) entries =
     (if length p > 65535 then Inl PATH_TOO_LONG
      else if sum_list (map (\<lambda>e. length (content e)) entries) + raw_length c > 0xffffffff
        then Inl CONTENT_TOO_LARGE
      else collectEntries rest
             (entries @
               [\<lparr>path = p,
                 isBinary = (case c of Text s \<Rightarrow> False | Binary b \<Rightarrow> True),
                 content = (case c of Text s \<Rightarrow> encodeText s | Binary b \<Rightarrow> b)\<rparr>]))"

text \<open>The body of the second loop: one entry record.\<close>

definition serializeEntry :: "entry \<Rightarrow> bytes result" where
  "serializeEntry e =
     (let pathBytes = TextEncoder_encode (path e) in
      case encodeLE (int (length (content e))) 4 of
        Inl err \<Rightarrow> Inl err
      | Inr contentLengthBytes \<Rightarrow>
          (case encodeLE (int (length pathBytes)) 2 of
             Inl err \<Rightarrow> Inl err
           | Inr pathLengthBytes \<Rightarrow>
               Inr (concatUint8Arrays
                      [pathLengthBytes, contentLengthBytes,
                       [if isBinary e then 1 else 0], pathBytes, content e])))"

fun serializeEntries :: "entry list \<Rightarrow> bytes list result" where
  "serializeEntries [] = Inr []"
| "serializeEntries (e # es) =
     (case serializeEntry e of
        Inl err \<Rightarrow> Inl err
      | Inr r \<Rightarrow> (case serializeEntries es of Inl err \<Rightarrow> Inl err | Inr rs \<Rightarrow> Inr (r # rs)))"

definition serializeFileMap :: "jsmap \<Rightarrow> bytes result" where
  "serializeFileMap m =
     (case collectEntries m [] of
        Inl err \<Rightarrow> Inl err
      | Inr entries \<Rightarrow>
          (case serializeEntries entries of
             Inl err \<Rightarrow> Inl err
           | Inr serializedEntries \<Rightarrow>
               (let entryData = concatUint8Arrays serializedEntries in
                case encodeLE (int (length entries)) 4 of
                  Inl err \<Rightarrow> Inl err
                | Inr entryCountBytes \<Rightarrow>
                    (let totalLength = int (length HEADER) + 4 + 4 + int (length entryData) in
                     case encodeLE totalLength 4 of
                       Inl err \<Rightarrow> Inl err
                     | Inr totalLengthBytes \<Rightarrow>
                         Inr (concatUint8Arrays
                                [HEADER, totalLengthBytes, entryCountBytes, entryData])))))"

section \<open>\<open>deserializeFileMap\<close>\<close>

text \<open>The header loop throws at the first index where the bytes differ.\<close>

fun headerMismatch :: "bytes \<Rightarrow> nat \<Rightarrow> nat \<Rightarrow> bool" where
  "headerMismatch data i 0 = False"
| "headerMismatch data i (Suc n) =
     (if js_index data (int i) \<noteq> js_index HEADER (int i) then True
      else headerMismatch data (Suc i) n)"

text \<open>
  The entry loop, \<open>n\<close> iterations left. The offset is a JavaScript number: a negative
  decoded length moves it backwards.
\<close>

fun readEntries :: "nat \<Rightarrow> bytes \<Rightarrow> int \<Rightarrow> jsmap \<Rightarrow> jsmap result" where
  "readEntries 0 data offset result = Inr result"
| "readEntries (Suc n) data offset result =
     (if offset + 7 > int (length data) then Inl UNEXPECTED_END
      else
        let pathLength = decodeLE (js_slice data offset (offset + 2));
            offset2 = offset + 2;
            contentLength = decodeLE (js_slice data offset2 (offset2 + 4));
            offset6 = offset2 + 4;
            isBin = (js_index data offset6 = Some 1);
            offset7 = offset6 + 1
        in
          if offset7 + pathLength + contentLength > int (length data)
          then Inl ENTRY_EXCEEDS_BOUNDS
          else
            let pathBytes = js_slice data offset7 (offset7 + pathLength);
                offsetP = offset7 + pathLength;
                cont = js_slice data offsetP (offsetP + contentLength);
                offsetC = offsetP + contentLength;
                p = TextDecoder_decode pathBytes
            in readEntries n data offsetC
                 (map_set p (if isBin then Binary cont else Text (decodeText cont)) result))"

definition deserializeFileMap :: "bytes \<Rightarrow> jsmap result" where
  "deserializeFileMap data =
     (let headerLen = length HEADER in
      if headerMismatch data 0 headerLen then Inl INVALID_HEADER
      else
        let offset = int headerLen in
        if offset + 4 > int (length data) then Inl UNEXPECTED_END
        else
          let totalLength = decodeLE (js_slice data offset (offset + 4));
              offset4 = offset + 4
          in
            if totalLength \<noteq> int (length data) then Inl CORRUPTED_DATA
            else if offset4 + 4 > int (length data) then Inl UNEXPECTED_END
            else
              let entryCount = decodeLE (js_slice data offset4 (offset4 + 4));
                  offset8 = offset4 + 4
              in readEntries (nat entryCount) data offset8 [])"

section \<open>\<open>unzip\<close>\<close>

text \<open>
  What a \<open>try\<close> block can catch: one of this library's errors, or anything else.
  The gzip stream of the platform is a parameter: read to its end it gives the chunks,
  or it throws.
\<close>

datatype thrown = SqurpError SqurpErrorCode | ForeignError

definition decompressWithGzip :: "(bytes \<Rightarrow> thrown + bytes list) \<Rightarrow> bytes \<Rightarrow> bytes result" where
  "decompressWithGzip gzipStream data =
     (case gzipStream data of
        Inr chunks \<Rightarrow> Inr (concatUint8Arrays chunks)
      | Inl (SqurpError code) \<Rightarrow> Inl code
      | Inl ForeignError \<Rightarrow> Inl CORRUPTED_DATA)"

definition unzip :: "(bytes \<Rightarrow> thrown + bytes list) \<Rightarrow> bytes \<Rightarrow> jsmap result" where
  "unzip gzipStream data =
     (case decompressWithGzip gzipStream data of
        Inl err \<Rightarrow> Inl err
      | Inr decompressed \<Rightarrow> deserializeFileMap decompressed)"

section \<open>The container layout\<close>

text \<open>
  The byte layout that the second loop of \<open>serializeFileMap\<close> writes, with the
  flag byte left free: a record is the 2-byte path length, the 4-byte content length,
  the flag, the path bytes and the content bytes; a container is the header, the total
  length, the entry count and the records.
\<close>

type_synonym rawRecord = "bytes \<times> byte \<times> bytes"

fun entryRecord :: "rawRecord \<Rightarrow> bytes" where
  "entryRecord (pathBytes, flag, cont) =
     encodeLE_loop (int (length pathBytes)) 2 @ encodeLE_loop (int (length cont)) 4 @
     [flag] @ pathBytes @ cont"

definition containerOf :: "rawRecord list \<Rightarrow> bytes" where
  "containerOf rs =
     HEADER @
     encodeLE_loop (15 + int (length (concat (map entryRecord rs)))) 4 @
     encodeLE_loop (int (length rs)) 4 @
     concat (map entryRecord rs)"

text \<open>What the decoder stores for one record.\<close>

fun recordPath :: "rawRecord \<Rightarrow> jsstring" where
  "recordPath (pathBytes, flag, cont) = TextDecoder_decode pathBytes"

fun recordContent :: "rawRecord \<Rightarrow> content" where
  "recordContent (pathBytes, flag, cont) =
     (if flag = 1 then Binary cont else Text (decodeText cont))"

text \<open>The entry and the record that the encoder makes of one map binding.\<close>

fun toEntry :: "jsstring \<times> content \<Rightarrow> entry" where
  "toEntry (p, c) =
     \<lparr>path = p,
      isBinary = (case c of Text s \<Rightarrow> False | Binary b \<Rightarrow> True),
      content = (case c of Text s \<Rightarrow> encodeText s | Binary b \<Rightarrow> b)\<rparr>"

definition entryRaw :: "entry \<Rightarrow> rawRecord" where
  "entryRaw e = (TextEncoder_encode (path e), if isBinary e then 1 else 0, content e)"

text \<open>Encoding and then decoding.\<close>

definition roundTrip :: "jsmap \<Rightarrow> jsmap result" where
  "roundTrip m =
     (case serializeFileMap m of Inl err \<Rightarrow> Inl err | Inr buf \<Rightarrow> deserializeFileMap buf)"

text \<open>The map after the decoder has stored the records in order.\<close>

definition storeAll :: "jsmap \<Rightarrow> rawRecord list \<Rightarrow> jsmap" where
  "storeAll acc rs = foldl (\<lambda>m r. map_set (recordPath r) (recordContent r) m) acc rs"

section \<open>Strings that survive UTF-8 and the size of a serialized map\<close>

text \<open>
  A string is safe when encoding it to UTF-8 and decoding the bytes gives the string
  back. A binding is safe when its path is, and its content if that is a string.
\<close>

definition utf8Safe :: "jsstring \<Rightarrow> bool" where
  "utf8Safe s = (TextDecoder_decode (TextEncoder_encode s) = s)"

fun bindingSafe :: "jsstring \<times> content \<Rightarrow> bool" where
  "bindingSafe (p, Text s) = (utf8Safe p \<and> utf8Safe s)"
| "bindingSafe (p, Binary b) = utf8Safe p"

text \<open>
  A Unicode scalar value is a code point outside the surrogate range. A string is
  well formed when every surrogate in it is part of a pair, high then low.
  \<open>unicodeText\<close> holds of the well-formed strings that do not begin with U+FEFF.
\<close>

definition scalar :: "nat \<Rightarrow> bool" where
  "scalar c = (c < 0x110000 \<and> \<not> (0xD800 \<le> c \<and> c \<le> 0xDFFF))"

fun wellFormed :: "nat list \<Rightarrow> bool" where
  "wellFormed [] = True"
| "wellFormed [u] = (\<not> (0xD800 \<le> u \<and> u \<le> 0xDFFF))"
| "wellFormed (u # v # us) =
     (if 0xD800 \<le> u \<and> u \<le> 0xDBFF then 0xDC00 \<le> v \<and> v \<le> 0xDFFF \<and> wellFormed us
      else \<not> (0xDC00 \<le> u \<and> u \<le> 0xDFFF) \<and> wellFormed (v # us))"

definition unicodeText :: "jsstring \<Rightarrow> bool" where
  "unicodeText s = (wellFormed (map unat s) \<and> (case s of [] \<Rightarrow> True | u # rest \<Rightarrow> u \<noteq> 0xFEFF))"

fun bindingUnicode :: "jsstring \<times> content \<Rightarrow> bool" where
  "bindingUnicode (p, Text s) = (unicodeText p \<and> unicodeText s)"
| "bindingUnicode (p, Binary b) = unicodeText p"

text \<open>
  The number of bytes that \<open>serializeFileMap\<close> writes for a map: 15 for the header
  and the two counters and, for each binding, 7 and the bytes of the path and of the
  content.
\<close>

definition serializedSize :: "jsmap \<Rightarrow> nat" where
  "serializedSize m = 15 + sum_list (map (\<lambda>pc. length (entryRecord (entryRaw (toEntry pc)))) m)"

section \<open>Little-endian fields\<close>


lemma js_sar_8: "js_sar v 8 = drop_bit 8 (signed_take_bit 31 v)"
  by (simp add: js_sar_def sint_signed_drop_bit_eq sint_sbintrunc')

lemma bit_255_int: "n < 8 \<Longrightarrow> bit (255 :: int) n"
proof -
  have m: "(255 :: int) = mask 8" by (simp add: mask_eq_exp_minus_1)
  show "n < 8 \<Longrightarrow> bit (255 :: int) n" unfolding m by (simp add: bit_simps)
qed

lemma byte_of_js_and: "(word_of_int (js_and v 0xff) :: 8 word) = word_of_int v"
  unfolding js_and_def
  by (rule bit_word_eqI) (simp add: bit_simps bit_255_int)

lemma sar_sar: "drop_bit 8 (signed_take_bit 31 (drop_bit k (signed_take_bit 31 (v::int)))) = drop_bit (8 + k) (signed_take_bit 31 v)"
  by (rule bit_eqI) (auto simp add: bit_simps min_def ac_simps)

lemma byte_k: 
  assumes "k \<le> 24"
  shows "(word_of_int (drop_bit k (signed_take_bit 31 v)) :: 8 word) = word_of_int (drop_bit k v)"
proof (rule bit_word_eqI)
  fix n assume "n < LENGTH(8)"
  then have "k + n \<le> 31" using assms by simp
  then have "min 31 (k + n) = k + n" by simp
  then show "bit (word_of_int (drop_bit k (signed_take_bit 31 v)) :: 8 word) n = bit (word_of_int (drop_bit k v) :: 8 word) n"
    by (simp add: bit_simps)
qed

lemma four: "(4::nat) = Suc (Suc (Suc (Suc 0)))" by simp

lemma encodeLE_loop_4: "encodeLE_loop v 4 = 
  [word_of_int v, word_of_int (drop_bit 8 v), word_of_int (drop_bit 16 v), word_of_int (drop_bit 24 v)]"
  unfolding four
  by (simp add: byte_of_js_and js_sar_8 sar_sar byte_k)

lemma encodeLE_loop_2: "encodeLE_loop v 2 = [word_of_int v, word_of_int (drop_bit 8 v)]"
  unfolding numeral_2_eq_2
  by (simp add: byte_of_js_and js_sar_8 sar_sar byte_k)

lemma decodeLE_4: "decodeLE [a,b,c,d] = sint (word_cat d (word_cat c (word_cat b a :: 16 word) :: 24 word) :: 32 word)"
  apply (simp add: decodeLE_def js_or_def js_shl_def)
  apply (rule arg_cong[where f=sint])
  apply (rule bit_word_eqI)
  apply (auto simp add: bit_simps dest: bit_imp_le_length)
  done

lemma decodeLE_2: "decodeLE [a,b] = uint (word_cat b a :: 16 word)"
  apply (simp add: decodeLE_def js_or_def js_shl_def)
  apply (rule bit_eqI)
  apply (auto simp add: bit_simps min_def dest: bit_imp_le_length split: if_splits)
  done

lemma length_encodeLE_loop: "length (encodeLE_loop v n) = n"
  by (induction n arbitrary: v) simp_all

lemma cat4_of_int: "(word_cat (word_of_int (drop_bit 24 v) :: 8 word) 
     (word_cat (word_of_int (drop_bit 16 v) :: 8 word) 
       (word_cat (word_of_int (drop_bit 8 v) :: 8 word) (word_of_int v :: 8 word) :: 16 word) :: 24 word) :: 32 word) = word_of_int v"
  apply (rule bit_word_eqI)
  apply (auto simp add: bit_simps)
  done

lemma cat2_of_int: "(word_cat (word_of_int (drop_bit 8 v) :: 8 word) (word_of_int v :: 8 word) :: 16 word) = word_of_int v"
  apply (rule bit_word_eqI)
  apply (auto simp add: bit_simps)
  done

lemma decodeLE_encodeLE_4: "decodeLE (encodeLE_loop v 4) = sint (word_of_int v :: 32 word)"
  by (simp only: encodeLE_loop_4 decodeLE_4 cat4_of_int)

lemma decodeLE_encodeLE_2: "decodeLE (encodeLE_loop v 2) = uint (word_of_int v :: 16 word)"
  by (simp only: encodeLE_loop_2 decodeLE_2 cat2_of_int)

lemma decodeLE_encodeLE_4_small: "0 \<le> v \<Longrightarrow> v < 2147483648 \<Longrightarrow> decodeLE (encodeLE_loop v 4) = v"
  by (simp add: decodeLE_encodeLE_4 int_word_sint)

lemma decodeLE_encodeLE_4_big: "2147483648 \<le> v \<Longrightarrow> v < 4294967296 \<Longrightarrow> decodeLE (encodeLE_loop v 4) = v - 4294967296"
proof -
  assume a: "2147483648 \<le> v" "v < 4294967296"
  have e: "v + 2147483648 = (v - 2147483648) + 4294967296" by simp
  have "(v + 2147483648) mod 4294967296 = ((v - 2147483648) + 4294967296) mod 4294967296"
    by (simp only: e)
  also have "\<dots> = (v - 2147483648) mod 4294967296"
    by (rule mod_add_self2)
  also have "\<dots> = v - 2147483648"
    using a by (intro mod_pos_pos_trivial) simp_all
  finally have "(v + 2147483648) mod 4294967296 = v - 2147483648" .
  then show ?thesis by (simp add: decodeLE_encodeLE_4 int_word_sint)
qed

lemma decodeLE_encodeLE_2_small: "0 \<le> v \<Longrightarrow> v < 65536 \<Longrightarrow> decodeLE (encodeLE_loop v 2) = v"
  by (simp add: decodeLE_encodeLE_2 uint_word_of_int take_bit_eq_mod)

lemma decodeLE_4_upper: "decodeLE (encodeLE_loop v 4) < 2147483648"
  using sint_lt[of "word_of_int v :: 32 word"] by (simp add: decodeLE_encodeLE_4)

lemma decodeLE_list4_upper: 
  assumes "length bs = 4" shows "decodeLE bs < 2147483648"
proof -
  from assms obtain a b c d where bs: "bs = [a, b, c, d]"
    by (auto simp add: length_Suc_conv four)
  show ?thesis unfolding bs decodeLE_4
    using sint_lt[of "word_cat d (word_cat c (word_cat b a :: 16 word) :: 24 word) :: 32 word"] by simp
qed

lemma js_slice_nat: "s \<le> e \<Longrightarrow> e \<le> length xs \<Longrightarrow> js_slice xs (int s) (int e) = take (e - s) (drop s xs)"
  by (simp add: js_slice_def Let_def nat_diff_distrib' min_def)

lemma js_slice_app: "js_slice (a @ b @ c) (int (length a)) (int (length a) + int (length b)) = b"
  using js_slice_nat[of "length a" "length a + length b" "a @ b @ c"] by simp

lemma js_index_app: "js_index (a @ x # c) (int (length a)) = Some x"
  by (simp add: js_index_def)

lemma length_HEADER: "length HEADER = 7"
  by (simp add: HEADER_def)

lemma headerMismatch_ex:
  "headerMismatch data i n \<longleftrightarrow> (\<exists>j. i \<le> j \<and> j < i + n \<and> js_index data (int j) \<noteq> js_index HEADER (int j))"
proof (induction n arbitrary: i)
  case 0
  then show ?case by simp
next
  case (Suc n)
  show ?case
  proof (cases "js_index data (int i) \<noteq> js_index HEADER (int i)")
    case True
    then have "\<exists>j. i \<le> j \<and> j < i + Suc n \<and> js_index data (int j) \<noteq> js_index HEADER (int j)"
      by (intro exI[of _ i]) simp
    with True show ?thesis by simp
  next
    case False
    have "(\<exists>j. Suc i \<le> j \<and> j < Suc i + n \<and> js_index data (int j) \<noteq> js_index HEADER (int j))
        \<longleftrightarrow> (\<exists>j. i \<le> j \<and> j < i + Suc n \<and> js_index data (int j) \<noteq> js_index HEADER (int j))"
      using False by (metis Suc_leD Suc_leI add_Suc add_Suc_right le_neq_implies_less)
    with False Suc.IH[of "Suc i"] show ?thesis by simp
  qed
qed

lemma headerMismatch_iff: "headerMismatch data 0 (length HEADER) \<longleftrightarrow> take 7 data \<noteq> HEADER"
proof -
  have "take 7 data = HEADER \<longleftrightarrow> (\<forall>j<7. js_index data (int j) = js_index HEADER (int j))"
  proof
    assume eq: "take 7 data = HEADER"
    then have len: "7 \<le> length data"
      using length_HEADER by (metis length_take min.cobounded1 min_def take_all_iff linorder_le_cases)
    show "\<forall>j<7. js_index data (int j) = js_index HEADER (int j)"
    proof (intro allI impI)
      fix j :: nat assume j: "j < 7"
      have "data ! j = take 7 data ! j" using j by simp
      then show "js_index data (int j) = js_index HEADER (int j)"
        using j len eq by (simp add: js_index_def length_HEADER)
    qed
  next
    assume all: "\<forall>j<7. js_index data (int j) = js_index HEADER (int j)"
    have len: "7 \<le> length data"
    proof (rule ccontr)
      assume "\<not> 7 \<le> length data"
      then have "js_index data (int 6) = None" by (simp add: js_index_def)
      moreover have "js_index HEADER (int 6) \<noteq> None" by (simp add: js_index_def length_HEADER)
      moreover have "js_index data (int 6) = js_index HEADER (int 6)"
      proof -
        have "(6::nat) < 7" by simp
        with all show ?thesis by blast
      qed
      ultimately show False by simp
    qed
    show "take 7 data = HEADER"
    proof (rule nth_equalityI)
      show "length (take 7 data) = length HEADER" using len by (simp add: length_HEADER)
    next
      fix i assume "i < length (take 7 data)"
      then have i: "i < 7" by simp
      with all have "js_index data (int i) = js_index HEADER (int i)" by blast
      with i len show "take 7 data ! i = HEADER ! i" by (simp add: js_index_def length_HEADER)
    qed
  qed
  then show ?thesis by (auto simp add: headerMismatch_ex length_HEADER)
qed

section \<open>The encoder writes the container layout\<close>


lemma length_entryRecord: "length (entryRecord (pb, f, cb)) = 7 + length pb + length cb"
  by (simp add: length_encodeLE_loop)

lemma serializeEntry_eq: "serializeEntry e = Inr (entryRecord (entryRaw e))"
  by (simp add: serializeEntry_def encodeLE_def entryRaw_def concatUint8Arrays_def Let_def)

lemma serializeEntries_eq: "serializeEntries es = Inr (map (\<lambda>e. entryRecord (entryRaw e)) es)"
  by (induction es) (simp_all add: serializeEntry_eq)

lemma serializeFileMap_eq:
  "serializeFileMap m =
     (case collectEntries m [] of Inl err \<Rightarrow> Inl err
      | Inr es \<Rightarrow> Inr (containerOf (map entryRaw es)))"
  by (simp add: serializeFileMap_def serializeEntries_eq encodeLE_def containerOf_def
      concatUint8Arrays_def length_HEADER Let_def comp_def split: sum.splits)

lemma collectEntries_Inr: "collectEntries m acc = Inr es \<Longrightarrow> es = acc @ map toEntry m"
proof (induction m arbitrary: acc)
  case Nil
  then show ?case by simp
next
  case (Cons pc m)
  obtain p c where pc: "pc = (p, c)" by (cases pc)
  from Cons.prems show ?case
    unfolding pc by (auto split: if_splits dest!: Cons.IH)
qed

lemma readEntries_step:
  assumes pb: "length pb < 65536" and cb: "length cb < 2147483648"
  shows "readEntries (Suc n) (pre @ entryRecord (pb, f, cb) @ post) (int (length pre)) acc =
         readEntries n (pre @ entryRecord (pb, f, cb) @ post)
           (int (length (pre @ entryRecord (pb, f, cb))))
           (map_set (recordPath (pb, f, cb)) (recordContent (pb, f, cb)) acc)"
proof -
  let ?L2 = "encodeLE_loop (int (length pb)) 2"
  let ?L4 = "encodeLE_loop (int (length cb)) 4"
  let ?data = "pre @ entryRecord (pb, f, cb) @ post"
  let ?o = "int (length pre)"
  have d: "?data = pre @ ?L2 @ ?L4 @ [f] @ pb @ cb @ post" by simp
  have len: "int (length ?data) = ?o + 7 + int (length pb) + int (length cb) + int (length post)"
    by (simp add: length_encodeLE_loop ac_simps)
  have s1: "js_slice ?data ?o (?o + 2) = ?L2"
    using js_slice_app[of pre ?L2 "?L4 @ [f] @ pb @ cb @ post"]
    by (simp add: length_encodeLE_loop ac_simps)
  have s2: "js_slice ?data (?o + 2) (?o + 2 + 4) = ?L4"
    using js_slice_app[of "pre @ ?L2" ?L4 "[f] @ pb @ cb @ post"]
    by (simp add: length_encodeLE_loop ac_simps)
  have s3: "js_index ?data (?o + 2 + 4) = Some f"
    using js_index_app[of "pre @ ?L2 @ ?L4" f "pb @ cb @ post"]
    by (simp add: length_encodeLE_loop ac_simps)
  have s4: "js_slice ?data (?o + 2 + 4 + 1) (?o + 2 + 4 + 1 + int (length pb)) = pb"
    using js_slice_app[of "pre @ ?L2 @ ?L4 @ [f]" pb "cb @ post"]
    by (simp add: length_encodeLE_loop ac_simps)
  have s5: "js_slice ?data (?o + 2 + 4 + 1 + int (length pb)) 
              (?o + 2 + 4 + 1 + int (length pb) + int (length cb)) = cb"
    using js_slice_app[of "pre @ ?L2 @ ?L4 @ [f] @ pb" cb "post"]
    by (simp add: length_encodeLE_loop ac_simps)
  have v2: "decodeLE ?L2 = int (length pb)"
    using pb by (simp add: decodeLE_encodeLE_2_small)
  have v4: "decodeLE ?L4 = int (length cb)"
    using cb by (simp add: decodeLE_encodeLE_4_small)
  have lenR: "int (length (pre @ entryRecord (pb, f, cb))) = ?o + 2 + 4 + 1 + int (length pb) + int (length cb)"
    by (simp add: length_encodeLE_loop)
  show ?thesis
    apply (subst readEntries.simps(2))
    apply (simp only: Let_def s1 s2 s3 s4 s5 v2 v4 len lenR)
    apply simp
    done
qed


lemma readEntries_records:
  assumes "\<forall>r\<in>set rs. length (fst r) < 65536 \<and> length (snd (snd r)) < 2147483648"
  shows "readEntries (length rs) (pre @ concat (map entryRecord rs) @ post) (int (length pre)) acc
         = Inr (storeAll acc rs)"
  using assms
proof (induction rs arbitrary: pre acc)
  case Nil
  then show ?case by (simp add: storeAll_def)
next
  case (Cons r rs)
  obtain pb f cb where r: "r = (pb, f, cb)" by (cases r)
  from Cons.prems have pb: "length pb < 65536" and cb: "length cb < 2147483648"
    and rest: "\<forall>r\<in>set rs. length (fst r) < 65536 \<and> length (snd (snd r)) < 2147483648"
    by (simp_all add: r)
  let ?data = "pre @ concat (map entryRecord (r # rs)) @ post"
  have d1: "?data = pre @ entryRecord (pb, f, cb) @ (concat (map entryRecord rs) @ post)"
    by (simp add: r)
  have d2: "?data = (pre @ entryRecord (pb, f, cb)) @ concat (map entryRecord rs) @ post"
    by (simp add: r)
  have "readEntries (length (r # rs)) ?data (int (length pre)) acc
        = readEntries (Suc (length rs)) (pre @ entryRecord (pb, f, cb) @ (concat (map entryRecord rs) @ post))
            (int (length pre)) acc"
    by (simp only: d1 length_Cons)
  also have "\<dots> = readEntries (length rs) (pre @ entryRecord (pb, f, cb) @ (concat (map entryRecord rs) @ post))
            (int (length (pre @ entryRecord (pb, f, cb))))
            (map_set (recordPath (pb, f, cb)) (recordContent (pb, f, cb)) acc)"
    by (rule readEntries_step[OF pb cb])
  also have "\<dots> = readEntries (length rs) ((pre @ entryRecord (pb, f, cb)) @ concat (map entryRecord rs) @ post)
            (int (length (pre @ entryRecord (pb, f, cb))))
            (map_set (recordPath r) (recordContent r) acc)"
    by (simp only: r append_assoc)
  also have "\<dots> = Inr (storeAll (map_set (recordPath r) (recordContent r) acc) rs)"
    by (rule Cons.IH[OF rest])
  finally show ?case by (simp add: storeAll_def)
qed

lemma length_records_ge: "7 * length rs \<le> length (concat (map entryRecord rs))"
proof (induction rs)
  case Nil
  then show ?case by simp
next
  case (Cons r rs)
  obtain pb f cb where r: "r = (pb, f, cb)" by (cases r)
  from Cons.IH show ?case unfolding r by (simp add: length_encodeLE_loop)
qed

lemma length_record_le:
  "r \<in> set rs \<Longrightarrow> length (entryRecord r) \<le> length (concat (map entryRecord rs))"
  by (induction rs) auto

lemma length_containerOf:
  "length (containerOf rs) = 15 + length (concat (map entryRecord rs))"
  by (simp add: containerOf_def length_HEADER length_encodeLE_loop)

lemma take_HEADER_containerOf: "take 7 (containerOf rs) = HEADER"
  by (simp add: containerOf_def length_HEADER)

lemma deserialize_containerOf:
  assumes paths: "\<forall>r\<in>set rs. length (fst r) < 65536"
    and size: "length (containerOf rs) < 2147483648"
  shows "deserializeFileMap (containerOf rs) = Inr (storeAll [] rs)"
proof -
  let ?E = "concat (map entryRecord rs)"
  let ?T = "encodeLE_loop (15 + int (length ?E)) 4"
  let ?C = "encodeLE_loop (int (length rs)) 4"
  let ?data = "containerOf rs"
  have len: "int (length ?data) = 15 + int (length ?E)"
    by (simp add: length_containerOf)
  have small: "15 + int (length ?E) < 2147483648"
    using size by (simp add: length_containerOf)
  have hdr: "\<not> headerMismatch ?data 0 (length HEADER)"
    by (simp add: headerMismatch_iff take_HEADER_containerOf)
  have t: "js_slice ?data 7 11 = ?T"
    using js_slice_app[of HEADER ?T "?C @ ?E"]
    by (simp add: containerOf_def length_HEADER length_encodeLE_loop)
  have c: "js_slice ?data 11 15 = ?C"
    using js_slice_app[of "HEADER @ ?T" ?C ?E]
    by (simp add: containerOf_def length_HEADER length_encodeLE_loop)
  have tv: "decodeLE ?T = 15 + int (length ?E)"
    using small by (simp add: decodeLE_encodeLE_4_small)
  have "int (length rs) < 2147483648"
    using small length_records_ge[of rs] by simp
  then have cv: "decodeLE ?C = int (length rs)"
    by (simp add: decodeLE_encodeLE_4_small)
  have recs: "\<forall>r\<in>set rs. length (fst r) < 65536 \<and> length (snd (snd r)) < 2147483648"
  proof
    fix r assume r: "r \<in> set rs"
    obtain pb f cb where rr: "r = (pb, f, cb)" by (cases r)
    have "length cb \<le> length (entryRecord r)" by (simp add: rr)
    also have "\<dots> \<le> length ?E" using r by (rule length_record_le)
    finally have "length (snd (snd r)) < 2147483648" using small by (simp add: rr)
    with paths r show "length (fst r) < 65536 \<and> length (snd (snd r)) < 2147483648" by simp
  qed
  have d: "?data = (HEADER @ ?T @ ?C) @ ?E @ []"
    by (simp add: containerOf_def)
  have run: "readEntries (length rs) ?data 15 [] = Inr (storeAll [] rs)"
    using readEntries_records[OF recs, of "HEADER @ ?T @ ?C" "[]" "[]"]
    unfolding d[symmetric] by (simp add: length_HEADER length_encodeLE_loop)
  show ?thesis
    unfolding deserializeFileMap_def Let_def
    using hdr run by (simp add: length_HEADER t c tv cv len)
qed

section \<open>Header and length checks of the decoder\<close>

lemma deserialize_bad_header: "take 7 data \<noteq> HEADER \<Longrightarrow> deserializeFileMap data = Inl INVALID_HEADER"
  by (simp add: deserializeFileMap_def Let_def headerMismatch_iff)

lemma serializeFileMap_container:
  "serializeFileMap m = Inr buf \<Longrightarrow> \<exists>rs. buf = containerOf rs"
  by (auto simp add: serializeFileMap_eq split: sum.splits)

lemma le32_encode:
  "encodeLE_loop (uint a + 256 * uint b + 65536 * uint c + 16777216 * uint d) 4 = [a, b, c, d]"
proof -
  let ?V = "uint a + 256 * uint b + 65536 * uint c + 16777216 * uint d"
  have ba: "0 \<le> uint a" "uint a < 256" using uint_lt2p[of a] by simp_all
  have bb: "0 \<le> uint b" "uint b < 256" using uint_lt2p[of b] by simp_all
  have bc: "0 \<le> uint c" "uint c < 256" using uint_lt2p[of c] by simp_all
  have low: "\<And>x y::int. 0 \<le> x \<Longrightarrow> x < 256 \<Longrightarrow> (x + 256 * y) div 256 = y"
    by (simp add: div_pos_pos_trivial)
  have e8: "?V = uint a + 256 * (uint b + 256 * uint c + 65536 * uint d)" by simp
  have d8: "drop_bit 8 ?V = uint b + 256 * uint c + 65536 * uint d"
    unfolding drop_bit_eq_div e8 using low[OF ba] by simp
  have e8': "uint b + 256 * uint c + 65536 * uint d = uint b + 256 * (uint c + 256 * uint d)" by simp
  have d8': "drop_bit 8 (uint b + 256 * uint c + 65536 * uint d) = uint c + 256 * uint d"
    unfolding drop_bit_eq_div e8' using low[OF bb] by simp
  have d8'': "drop_bit 8 (uint c + 256 * uint d) = uint d"
    unfolding drop_bit_eq_div using low[OF bc] by simp
  have d16: "drop_bit 16 ?V = uint c + 256 * uint d"
    using drop_bit_drop_bit[of 8 8 ?V] d8 d8' by simp
  have d24: "drop_bit 24 ?V = uint d"
    using drop_bit_drop_bit[of 8 16 ?V] d16 d8'' by simp
  have z: "(256 :: 8 word) = 0" "(65536 :: 8 word) = 0" "(16777216 :: 8 word) = 0"
    by simp_all
  show ?thesis
    unfolding encodeLE_loop_4 d8 d16 d24 by (simp add: z)
qed

lemma deserialize_too_long:
  assumes hdr: "take 7 data = HEADER" and big: "2147483648 \<le> length data"
  shows "deserializeFileMap data = Inl CORRUPTED_DATA"
proof -
  have "length (js_slice data 7 11) = 4"
    using big js_slice_nat[of 7 11 data] by simp
  then have "decodeLE (js_slice data 7 11) < 2147483648"
    by (rule decodeLE_list4_upper)
  then have ne: "decodeLE (js_slice data 7 11) \<noteq> int (length data)"
    using big by simp
  have "\<not> headerMismatch data 0 (length HEADER)"
    using hdr by (simp add: headerMismatch_iff)
  then show ?thesis
    using ne big by (simp add: deserializeFileMap_def Let_def length_HEADER)
qed

section \<open>Storing the decoded records\<close>

lemma map_of_storeAll:
  "map_of (storeAll acc (rs @ [r])) = (map_of (storeAll acc rs))(recordPath r \<mapsto> recordContent r)"
  by (simp add: storeAll_def map_set_def update_conv')

lemma storeAll_last_wins:
  "r \<in> set rs \<Longrightarrow>
   map_of (storeAll acc rs) (recordPath r)
     = Some (recordContent (last (filter (\<lambda>q. recordPath q = recordPath r) rs)))"
proof (induction rs rule: rev_induct)
  case Nil
  then show ?case by simp
next
  case (snoc q rs)
  show ?case
  proof (cases "recordPath q = recordPath r")
    case True
    then show ?thesis by (simp add: map_of_storeAll)
  next
    case False
    with snoc.prems have "r \<in> set rs" by auto
    with snoc.IH False show ?thesis by (simp add: map_of_storeAll)
  qed
qed

lemma distinct_storeAll: "distinct (map fst acc) \<Longrightarrow> distinct (map fst (storeAll acc rs))"
  by (induction rs rule: rev_induct) (simp_all add: storeAll_def map_set_def distinct_update)

section \<open>Truncated containers\<close>

lemma take_container_header:
  "7 \<le> n \<Longrightarrow> take 7 (take n (containerOf rs)) = HEADER"
  by (simp add: take_HEADER_containerOf min_def)

lemma deserialize_short:
  assumes "take 7 data = HEADER" and "length data < 11"
  shows "deserializeFileMap data = Inl UNEXPECTED_END"
proof -
  have "\<not> headerMismatch data 0 (length HEADER)"
    using assms(1) by (simp only: headerMismatch_iff not_not)
  then show ?thesis
    using assms(2) by (simp add: deserializeFileMap_def Let_def length_HEADER)
qed

lemma deserialize_length_mismatch:
  assumes "take 7 data = HEADER" and "11 \<le> length data"
    and "decodeLE (take 4 (drop 7 data)) \<noteq> int (length data)"
  shows "deserializeFileMap data = Inl CORRUPTED_DATA"
proof -
  have h: "\<not> headerMismatch data 0 (length HEADER)"
    using assms(1) by (simp only: headerMismatch_iff not_not)
  have "js_slice data 7 11 = take 4 (drop 7 data)"
    using js_slice_nat[of 7 11 data] assms(2) by simp
  then show ?thesis
    using h assms(2,3) by (simp add: deserializeFileMap_def Let_def length_HEADER)
qed

lemma truncated_container:
  assumes len: "length (containerOf rs) < 4294967296"
    and k: "0 < k" "k \<le> length (containerOf rs)"
  shows "deserializeFileMap (take (length (containerOf rs) - k) (containerOf rs)) =
           Inl (if length (containerOf rs) - k < 7 then INVALID_HEADER
                else if length (containerOf rs) - k < 11 then UNEXPECTED_END
                else CORRUPTED_DATA)"
proof -
  let ?buf = "containerOf rs"
  let ?n = "length ?buf - k"
  let ?t = "take ?n ?buf"
  have lt: "length ?t = ?n" by simp
  have nL: "?n < length ?buf" using k by simp
  show ?thesis
  proof (cases "?n < 7")
    case True
    then have "length (take 7 ?t) \<noteq> length HEADER" by (simp add: length_HEADER)
    then have "take 7 ?t \<noteq> HEADER" by (metis (full_types))
    then show ?thesis using True by (simp add: deserialize_bad_header)
  next
    case False
    then have hdr: "take 7 ?t = HEADER"
      by (intro take_container_header) simp
    show ?thesis
    proof (cases "?n < 11")
      case True
      then have "length ?t < 11" by simp
      with hdr have "deserializeFileMap ?t = Inl UNEXPECTED_END"
        by (rule deserialize_short)
      with False True show ?thesis by simp
    next
      case n11: False
      let ?E = "concat (map entryRecord rs)"
      let ?T = "encodeLE_loop (15 + int (length ?E)) 4"
      have "take 4 (drop 7 ?t) = take 4 (drop 7 ?buf)"
        using n11 by (simp add: drop_take take_take min_def)
      also have "\<dots> = ?T"
        by (simp add: containerOf_def length_HEADER length_encodeLE_loop)
      finally have sl: "take 4 (drop 7 ?t) = ?T" .
      have L: "int (length ?buf) = 15 + int (length ?E)"
        by (simp add: length_containerOf)
      have "decodeLE ?T \<noteq> int ?n"
      proof (cases "15 + int (length ?E) < 2147483648")
        case True
        then have "decodeLE ?T = int (length ?buf)"
          using L by (simp add: decodeLE_encodeLE_4_small)
        then show ?thesis using nL by simp
      next
        case False
        then have "decodeLE ?T = int (length ?buf) - 4294967296"
          using L len by (simp add: decodeLE_encodeLE_4_big)
        then show ?thesis using len by simp
      qed
      then have "decodeLE (take 4 (drop 7 ?t)) \<noteq> int (length ?t)"
        unfolding sl lt .
      moreover have "11 \<le> length ?t" using n11 by simp
      ultimately have "deserializeFileMap ?t = Inl CORRUPTED_DATA"
        using hdr by (intro deserialize_length_mismatch)
      with False n11 show ?thesis by simp
    qed
  qed
qed

section \<open>Lengths of encoded strings\<close>

lemma length_utf8_of_scalar: "1 \<le> length (utf8_of_scalar c)"
  by (simp add: utf8_of_scalar_def)

lemma length_utf8_of_scalar_4: "0x10000 \<le> c \<Longrightarrow> length (utf8_of_scalar c) = 4"
  by (simp add: utf8_of_scalar_def)

lemma length_utf16_le_utf8:
  "length us \<le> length (concat (map utf8_of_scalar (utf16_scalars us)))"
proof (induction us rule: utf16_scalars.induct)
  case 1
  then show ?case by simp
next
  case (2 u)
  then show ?case using length_utf8_of_scalar[of "if 0xD800 \<le> u \<and> u \<le> 0xDFFF then 0xFFFD else u"] by simp
next
  case (3 u v us)
  show ?case
  proof (cases "0xD800 \<le> u \<and> u \<le> 0xDBFF \<and> 0xDC00 \<le> v \<and> v \<le> 0xDFFF")
    case True
    then have "length (utf8_of_scalar (0x10000 + (u - 0xD800) * 0x400 + (v - 0xDC00))) = 4"
      by (intro length_utf8_of_scalar_4) simp
    with True 3(1) show ?thesis by simp
  next
    case False
    have "1 \<le> length (utf8_of_scalar (if 0xD800 \<le> u \<and> u \<le> 0xDFFF then 0xFFFD else u))"
      by (rule length_utf8_of_scalar)
    moreover have "length (v # us) \<le> length (concat (map utf8_of_scalar (utf16_scalars (v # us))))"
      using False by (intro 3(2))
    moreover have "utf16_scalars (u # v # us) =
        (if 0xD800 \<le> u \<and> u \<le> 0xDFFF then 0xFFFD else u) # utf16_scalars (v # us)"
      using False by (subst utf16_scalars.simps(3)) (simp only: if_False)
    ultimately show ?thesis by (simp del: utf16_scalars.simps)
  qed
qed

lemma length_TextEncoder_encode: "length s \<le> length (TextEncoder_encode s)"
  using length_utf16_le_utf8[of "map unat s"] by (simp add: TextEncoder_encode_def)

lemma utf16_scalars_Cons:
  "\<not> (0xD800 \<le> u \<and> u \<le> 0xDFFF) \<Longrightarrow> utf16_scalars (u # us) = u # utf16_scalars us"
  by (cases us) auto

lemma encode_e_acute:
  "TextEncoder_encode (replicate n 0xE9) = concat (replicate n [0xC3, 0xA9])"
proof -
  have "utf16_scalars (replicate n 233) = replicate n 233"
    by (induction n) (simp_all add: utf16_scalars_Cons)
  moreover have "concat (map utf8_of_scalar (replicate n 233)) = concat (replicate n [195, 169])"
    by (induction n) (simp_all add: utf8_of_scalar_def)
  ultimately show ?thesis
    by (simp add: TextEncoder_encode_def map_concat)
qed

lemma length_concat_replicate: "length (concat (replicate n xs)) = n * length xs"
  by (induction n) simp_all

lemma collectEntries_ok:
  assumes "\<forall>(p, c)\<in>set m. length p \<le> 65535"
    and "sum_list (map (\<lambda>e. length (content e)) acc) + sum_list (map (\<lambda>pc. length (content (toEntry pc))) m) \<le> 4294967295"
  shows "collectEntries m acc = Inr (acc @ map toEntry m)"
  using assms
proof (induction m arbitrary: acc)
  case Nil
  then show ?case by simp
next
  case (Cons pc m)
  obtain p c where pc: "pc = (p, c)" by (cases pc)
  have raw: "raw_length c \<le> length (content (toEntry (p, c)))"
    by (cases c) (simp_all add: encodeText_def length_TextEncoder_encode)
  have p: "\<not> length p > 65535" using Cons.prems(1) by (simp add: pc)
  have sz: "\<not> sum_list (map (\<lambda>e. length (content e)) acc) + raw_length c > 0xffffffff"
    using Cons.prems(2) raw by (simp add: pc)
  have "collectEntries (pc # m) acc = collectEntries m (acc @ [toEntry (p, c)])"
    using p sz by (simp add: pc)
  also have "\<dots> = Inr ((acc @ [toEntry (p, c)]) @ map toEntry m)"
  proof (rule Cons.IH)
    show "\<forall>(p, c)\<in>set m. length p \<le> 65535" using Cons.prems(1) by simp
    show "sum_list (map (\<lambda>e. length (content e)) (acc @ [toEntry (p, c)])) +
          sum_list (map (\<lambda>pc. length (content (toEntry pc))) m) \<le> 4294967295"
      using Cons.prems(2) by (simp add: pc)
  qed
  finally show ?case by (simp add: pc)
qed

lemma serializeFileMap_single_binary:
  assumes "n \<le> 4294967295"
  shows "serializeFileMap [([0x61], Binary (replicate n 0))]
           = Inr (containerOf [([0x61], 1, replicate n 0)])"
proof -
  have pa: "TextEncoder_encode [0x61] = [0x61]"
    by (simp add: TextEncoder_encode_def utf8_of_scalar_def)
  have col: "collectEntries [([0x61], Binary (replicate n 0))] [] =
      Inr [\<lparr>path = [0x61], isBinary = True, content = replicate n 0\<rparr>]"
    using assms by simp
  show ?thesis
    using assms by (simp add: serializeFileMap_eq entryRaw_def pa)
qed

section \<open>Encoding and decoding a map\<close>

lemma map_set_fresh: "k \<notin> fst ` set m \<Longrightarrow> map_set k v m = m @ [(k, v)]"
  unfolding map_set_def by (induction m) auto

lemma record_of_safe_binding:
  assumes "bindingSafe (p, c)"
  shows "recordPath (entryRaw (toEntry (p, c))) = p"
    and "recordContent (entryRaw (toEntry (p, c))) = c"
  using assms by (cases c; simp add: entryRaw_def utf8Safe_def decodeText_def encodeText_def)+

lemma storeAll_safe:
  assumes "distinct (map fst (acc @ m))" and "\<forall>pc\<in>set m. bindingSafe pc"
  shows "storeAll acc (map (\<lambda>pc. entryRaw (toEntry pc)) m) = acc @ m"
  using assms
proof (induction m arbitrary: acc)
  case Nil
  then show ?case by (simp add: storeAll_def)
next
  case (Cons pc m)
  obtain p c where pc: "pc = (p, c)" by (cases pc)
  have safe: "bindingSafe (p, c)" using Cons.prems(2) by (simp add: pc)
  have fresh: "p \<notin> fst ` set acc" using Cons.prems(1) by (auto simp add: pc)
  have "storeAll acc (map (\<lambda>pc. entryRaw (toEntry pc)) (pc # m))
        = storeAll (map_set p c acc) (map (\<lambda>pc. entryRaw (toEntry pc)) m)"
    by (simp add: storeAll_def pc record_of_safe_binding[OF safe] del: toEntry.simps)
  also have "\<dots> = storeAll (acc @ [(p, c)]) (map (\<lambda>pc. entryRaw (toEntry pc)) m)"
    by (simp only: map_set_fresh[OF fresh])
  also have "\<dots> = (acc @ [(p, c)]) @ m"
    using Cons.prems by (intro Cons.IH) (simp_all add: pc)
  finally show ?case by (simp add: pc)
qed

lemma length_content_le_record:
  "length (content (toEntry pc)) \<le> length (entryRecord (entryRaw (toEntry pc)))"
  by (simp add: entryRaw_def length_encodeLE_loop)

lemma sum_content_le_size:
  "sum_list (map (\<lambda>pc. length (content (toEntry pc))) m) \<le> serializedSize m"
proof -
  have "sum_list (map (\<lambda>pc. length (content (toEntry pc))) m)
        \<le> sum_list (map (\<lambda>pc. length (entryRecord (entryRaw (toEntry pc)))) m)"
    by (intro sum_list_mono length_content_le_record)
  then show ?thesis by (simp add: serializedSize_def)
qed

lemma length_containerOf_entries:
  "length (containerOf (map (\<lambda>pc. entryRaw (toEntry pc)) m)) = serializedSize m"
  by (simp add: length_containerOf serializedSize_def length_concat comp_def)

lemma serializeFileMap_ok:
  assumes "\<forall>(p, c)\<in>set m. length (TextEncoder_encode p) \<le> 65535"
    and "serializedSize m < 2147483648"
  shows "serializeFileMap m = Inr (containerOf (map (\<lambda>pc. entryRaw (toEntry pc)) m))"
proof -
  have p: "\<forall>(p, c)\<in>set m. length p \<le> 65535"
    using assms(1) length_TextEncoder_encode order_trans by fastforce
  have "sum_list (map (\<lambda>pc. length (content (toEntry pc))) m) \<le> 4294967295"
    using sum_content_le_size[of m] assms(2) by simp
  then have "collectEntries m [] = Inr ([] @ map toEntry m)"
    using p by (intro collectEntries_ok) simp_all
  then show ?thesis by (simp add: serializeFileMap_eq comp_def)
qed

section \<open>Well-formed strings survive UTF-8\<close>

lemma mod_off: "x < m \<Longrightarrow> (k * m + x) mod m = (x::nat)"
  by simp

lemma decode_1: 
  assumes "c < 0x80"
  shows "utf8_scalars 0 0 0x80 0xBF (utf8_of_scalar c @ bs) = c # utf8_scalars 0 0 0x80 0xBF bs"
  using assms by (simp add: utf8_of_scalar_def)

lemma decode_2: 
  assumes "0x80 \<le> c" "c < 0x800"
  shows "utf8_scalars 0 0 0x80 0xBF (utf8_of_scalar c @ bs) = c # utf8_scalars 0 0 0x80 0xBF bs"
proof -
  have d: "2 \<le> c div 64" "c div 64 < 32" using assms by simp_all
  have m: "c mod 64 < 64" by simp
  have b1: "(192 + c div 64) mod 32 = c div 64" using mod_off[of "c div 64" 32 6] d by simp
  have b2: "(128 + c mod 64) mod 64 = c mod 64" using mod_off[of "c mod 64" 64 2] by simp
  have c: "c div 64 * 64 + c mod 64 = c" by simp
  show ?thesis
    using assms d m by (simp add: utf8_of_scalar_def b1 b2 c)
qed

lemma dec3:
  assumes "224 \<le> b1" "b1 \<le> 239"
    and "(if b1 = 224 then 160 else 128) \<le> b2" "b2 \<le> (if b1 = 237 then 159 else 191)"
    and "128 \<le> b3" "b3 \<le> 191"
  shows "utf8_scalars 0 0 0x80 0xBF (b1 # b2 # b3 # bs)
         = (((b1 mod 16) * 64 + b2 mod 64) * 64 + b3 mod 64) # utf8_scalars 0 0 0x80 0xBF bs"
  using assms by (simp split: if_splits)

lemma dec4:
  assumes "240 \<le> b1" "b1 \<le> 244"
    and "(if b1 = 240 then 144 else 128) \<le> b2" "b2 \<le> (if b1 = 244 then 143 else 191)"
    and "128 \<le> b3" "b3 \<le> 191" and "128 \<le> b4" "b4 \<le> 191"
  shows "utf8_scalars 0 0 0x80 0xBF (b1 # b2 # b3 # b4 # bs)
         = ((((b1 mod 8) * 64 + b2 mod 64) * 64 + b3 mod 64) * 64 + b4 mod 64)
           # utf8_scalars 0 0 0x80 0xBF bs"
  using assms by (simp split: if_splits)

lemma decode_3: 
  assumes "0x800 \<le> c" "c < 0x10000" "\<not> (0xD800 \<le> c \<and> c \<le> 0xDFFF)"
  shows "utf8_scalars 0 0 0x80 0xBF (utf8_of_scalar c @ bs) = c # utf8_scalars 0 0 0x80 0xBF bs"
proof -
  define a where "a = c div 4096"
  define b where "b = (c div 64) mod 64"
  define d where "d = c mod 64"
  have a: "a < 16" using assms by (simp add: a_def)
  have b: "b < 64" and d: "d < 64" by (simp_all add: b_def d_def)
  have b1: "(224 + a) mod 16 = a" using mod_off[of a 16 14] a by simp
  have b2: "(128 + b) mod 64 = b" using mod_off[of b 64 2] b by simp
  have b3: "(128 + d) mod 64 = d" using mod_off[of d 64 2] d by simp
  have e0: "32 \<le> b" if "a = 0"
  proof -
    from that have "c < 4096" by (simp add: a_def)
    then have "c div 64 < 64" by simp
    then have "b = c div 64" by (simp add: b_def)
    moreover have "32 \<le> c div 64" using assms(1) by simp
    ultimately show ?thesis by simp
  qed
  have ed: "b < 32" if h: "a = 13"
  proof -
    have "53248 \<le> c" using h by (simp add: a_def)
    moreover have "c < 55296"
    proof -
      have "c div 4096 < 14" using h by (simp add: a_def)
      then have "c < 57344" by (simp add: div_less_iff_less_mult)
      with assms(3) show ?thesis by simp
    qed
    ultimately have bounds: "832 \<le> c div 64" "c div 64 < 864" by simp_all
    define r where "r = c div 64 - 832"
    have eq: "c div 64 = 13 * 64 + r" and r: "r < 32" using bounds by (simp_all add: r_def)
    have "(13 * 64 + r) mod 64 = r" using r by (intro mod_off) simp
    then show ?thesis unfolding b_def eq using r by simp
  qed
  have c1: "a * 64 + b = c div 64"
  proof -
    have "c div 4096 = (c div 64) div 64" by (simp add: div_mult2_eq)
    then show ?thesis by (simp add: a_def b_def)
  qed
  have c2: "c div 64 * 64 + d = c" by (simp add: d_def)
  have enc: "utf8_of_scalar c = [224 + a, 128 + b, 128 + d]"
    using assms by (simp add: utf8_of_scalar_def a_def b_def d_def)
  have "utf8_scalars 0 0 0x80 0xBF ((224 + a) # (128 + b) # (128 + d) # bs)
         = ((((224 + a) mod 16) * 64 + (128 + b) mod 64) * 64 + (128 + d) mod 64)
           # utf8_scalars 0 0 0x80 0xBF bs"
    using a b d e0 ed by (intro dec3) auto
  then show ?thesis
    by (simp only: enc b1 b2 b3 c1 c2 append_Cons append_Nil)
qed


lemma decode_4: 
  assumes "0x10000 \<le> c" "c < 0x110000"
  shows "utf8_scalars 0 0 0x80 0xBF (utf8_of_scalar c @ bs) = c # utf8_scalars 0 0 0x80 0xBF bs"
proof -
  define a where "a = c div 262144"
  define b where "b = (c div 4096) mod 64"
  define d where "d = (c div 64) mod 64"
  define e where "e = c mod 64"
  have a: "a \<le> 4" using assms by (simp add: a_def)
  have b: "b < 64" and d: "d < 64" and e: "e < 64" by (simp_all add: b_def d_def e_def)
  have b1: "(240 + a) mod 8 = a" using mod_off[of a 8 30] a by simp
  have b2: "(128 + b) mod 64 = b" using mod_off[of b 64 2] b by simp
  have b3: "(128 + d) mod 64 = d" using mod_off[of d 64 2] d by simp
  have b4: "(128 + e) mod 64 = e" using mod_off[of e 64 2] e by simp
  have e0: "16 \<le> b" if "a = 0"
  proof -
    from that have "c < 262144" by (simp add: a_def)
    then have "c div 4096 < 64" by simp
    then have "b = c div 4096" by (simp add: b_def)
    moreover have "16 \<le> c div 4096" using assms(1) by simp
    ultimately show ?thesis by simp
  qed
  have e4: "b < 16" if h: "a = 4"
  proof -
    have "1048576 \<le> c" using h by (simp add: a_def)
    then have bounds: "256 \<le> c div 4096" "c div 4096 < 272" using assms(2) by simp_all
    define r where "r = c div 4096 - 256"
    have eq: "c div 4096 = 4 * 64 + r" and r: "r < 16" using bounds by (simp_all add: r_def)
    have "(4 * 64 + r) mod 64 = r" using r by (intro mod_off) simp
    then show ?thesis unfolding b_def eq using r by simp
  qed
  have c1: "a * 64 + b = c div 4096"
  proof -
    have "c div 262144 = (c div 4096) div 64" by (simp add: div_mult2_eq)
    then show ?thesis by (simp add: a_def b_def)
  qed
  have c2: "c div 4096 * 64 + d = c div 64"
  proof -
    have "c div 4096 = (c div 64) div 64" by (simp add: div_mult2_eq)
    then show ?thesis by (simp add: d_def)
  qed
  have c3: "c div 64 * 64 + e = c" by (simp add: e_def)
  have enc: "utf8_of_scalar c = [240 + a, 128 + b, 128 + d, 128 + e]"
    using assms by (simp add: utf8_of_scalar_def a_def b_def d_def e_def)
  have "utf8_scalars 0 0 0x80 0xBF ((240 + a) # (128 + b) # (128 + d) # (128 + e) # bs)
         = (((((240 + a) mod 8) * 64 + (128 + b) mod 64) * 64 + (128 + d) mod 64) * 64
              + (128 + e) mod 64)
           # utf8_scalars 0 0 0x80 0xBF bs"
    using a b d e e0 e4 by (intro dec4) auto
  then show ?thesis
    by (simp only: enc b1 b2 b3 b4 c1 c2 c3 append_Cons append_Nil)
qed

lemma decode_scalar:
  assumes "scalar c"
  shows "utf8_scalars 0 0 0x80 0xBF (utf8_of_scalar c @ bs) = c # utf8_scalars 0 0 0x80 0xBF bs"
proof -
  consider "c < 0x80" | "0x80 \<le> c" "c < 0x800" | "0x800 \<le> c" "c < 0x10000" | "0x10000 \<le> c"
    by linarith
  then show ?thesis
  proof cases
    case 1 then show ?thesis by (rule decode_1)
  next
    case 2 then show ?thesis by (rule decode_2)
  next
    case 3 then show ?thesis using assms by (intro decode_3) (simp_all add: scalar_def)
  next
    case 4 then show ?thesis using assms by (intro decode_4) (simp_all add: scalar_def)
  qed
qed

lemma decode_scalars:
  "\<forall>c\<in>set cs. scalar c \<Longrightarrow>
   utf8_scalars 0 0 0x80 0xBF (concat (map utf8_of_scalar cs)) = cs"
  by (induction cs) (simp_all add: decode_scalar)

lemma utf8_of_scalar_bytes:
  assumes "scalar c" and "b \<in> set (utf8_of_scalar c)"
  shows "b < 256"
proof -
  have "c < 1114112" using assms(1) by (simp add: scalar_def)
  then have "c div 262144 \<le> 4" by simp
  moreover have "c < 65536 \<Longrightarrow> c div 4096 < 16" by simp
  moreover have "c < 2048 \<Longrightarrow> c div 64 < 32" by simp
  moreover have "c mod 64 < 64" "c div 64 mod 64 < 64" "c div 4096 mod 64 < 64" by simp_all
  ultimately show ?thesis using assms(2)
    by (auto simp add: utf8_of_scalar_def split: if_splits)
qed

lemma pair_scalar:
  assumes "0xD800 \<le> u" "u \<le> 0xDBFF" "0xDC00 \<le> v" "v \<le> (0xDFFF::nat)"
  shows "scalar (0x10000 + (u - 0xD800) * 0x400 + (v - 0xDC00))"
    and "utf16_of_scalar (0x10000 + (u - 0xD800) * 0x400 + (v - 0xDC00)) = [u, v]"
proof -
  define h where "h = u - 0xD800"
  define l where "l = v - 0xDC00"
  have h: "h < 1024" "u = 0xD800 + h" and l: "l < 1024" "v = 0xDC00 + l"
    using assms by (simp_all add: h_def l_def)
  have "h * 1024 + l < 1048576" using h(1) l(1) by simp
  then show "scalar (0x10000 + (u - 0xD800) * 0x400 + (v - 0xDC00))"
    unfolding h_def[symmetric] l_def[symmetric] by (simp add: scalar_def)
  have "(h * 1024 + l) div 1024 = h" "(h * 1024 + l) mod 1024 = l"
    using l(1) by simp_all
  then show "utf16_of_scalar (0x10000 + (u - 0xD800) * 0x400 + (v - 0xDC00)) = [u, v]"
    unfolding h_def[symmetric] l_def[symmetric] using h(2) l(2)
    by (simp add: utf16_of_scalar_def)
qed

lemma utf16_round_trip:
  assumes "\<forall>u\<in>set us. u < 65536" and "wellFormed us"
  shows "concat (map utf16_of_scalar (utf16_scalars us)) = us
         \<and> (\<forall>c\<in>set (utf16_scalars us). scalar c)"
  using assms
proof (induction us rule: utf16_scalars.induct)
  case 1
  then show ?case by simp
next
  case (2 u)
  then show ?case by (simp add: utf16_of_scalar_def scalar_def)
next
  case (3 u v us)
  show ?case
  proof (cases "0xD800 \<le> u \<and> u \<le> 0xDBFF")
    case True
    with 3(4) have v: "0xDC00 \<le> v" "v \<le> 0xDFFF" and wf: "wellFormed us" by simp_all
    have pair: "0xD800 \<le> u \<and> u \<le> 0xDBFF \<and> 0xDC00 \<le> v \<and> v \<le> 0xDFFF"
      using True v by simp
    have eq: "utf16_scalars (u # v # us) =
        (0x10000 + (u - 0xD800) * 0x400 + (v - 0xDC00)) # utf16_scalars us"
      using pair by (subst utf16_scalars.simps(3)) (simp only: if_True simp_thms)
    have ih: "concat (map utf16_of_scalar (utf16_scalars us)) = us
         \<and> (\<forall>c\<in>set (utf16_scalars us). scalar c)"
      using 3(3) wf by (intro 3(1)[OF pair]) simp_all
    show ?thesis
      unfolding eq using ih pair_scalar[of u v] pair by simp
  next
    case False
    with 3(4) have u: "\<not> (0xD800 \<le> u \<and> u \<le> 0xDFFF)" and wf: "wellFormed (v # us)"
      by auto
    have nopair: "\<not> (0xD800 \<le> u \<and> u \<le> 0xDBFF \<and> 0xDC00 \<le> v \<and> v \<le> 0xDFFF)"
      using False by blast
    have eq: "utf16_scalars (u # v # us) = u # utf16_scalars (v # us)"
      using u by (rule utf16_scalars_Cons)
    have ih: "concat (map utf16_of_scalar (utf16_scalars (v # us))) = v # us
         \<and> (\<forall>c\<in>set (utf16_scalars (v # us)). scalar c)"
      using 3(3) wf by (intro 3(2)[OF nopair]) simp_all
    have "u < 65536" using 3(3) by simp
    then have "utf16_of_scalar u = [u]" "scalar u"
      using u by (simp_all add: utf16_of_scalar_def scalar_def)
    then show ?thesis unfolding eq using ih by simp
  qed
qed


lemma strip_bom_wellFormed:
  assumes "wellFormed (u # us)" and "u \<noteq> 0xFEFF"
  shows "strip_bom (utf16_scalars (u # us)) = utf16_scalars (u # us)"
proof (cases us)
  case Nil
  with assms show ?thesis by (simp add: strip_bom_def)
next
  case (Cons v vs)
  show ?thesis
  proof (cases "0xD800 \<le> u \<and> u \<le> 0xDBFF \<and> 0xDC00 \<le> v \<and> v \<le> 0xDFFF")
    case True
    then show ?thesis unfolding Cons by (simp add: strip_bom_def)
  next
    case False
    with assms(1) have "\<not> (0xD800 \<le> u \<and> u \<le> 0xDFFF)"
      unfolding Cons by (auto split: if_splits)
    then have "utf16_scalars (u # us) = u # utf16_scalars us"
      by (rule utf16_scalars_Cons)
    then show ?thesis using assms(2) by (simp add: strip_bom_def)
  qed
qed

lemma bytes_of_nat_unat:
  "\<forall>b\<in>set B. b < 256 \<Longrightarrow> map unat (map of_nat B :: byte list) = B"
  by (induction B) (simp_all add: unat_of_nat)

lemma unicodeText_safe:
  assumes "unicodeText s"
  shows "utf8Safe s"
proof -
  let ?us = "map unat s"
  let ?cs = "utf16_scalars ?us"
  let ?B = "concat (map utf8_of_scalar ?cs)"
  have units: "\<forall>u\<in>set ?us. u < 65536"
  proof
    fix u assume "u \<in> set ?us"
    then obtain w :: "16 word" where "u = unat w" by auto
    then show "u < 65536" using unsigned_less[of w, where 'a = nat] by simp
  qed
  have wf: "wellFormed ?us" using assms by (simp add: unicodeText_def)
  have rt: "concat (map utf16_of_scalar ?cs) = ?us" and sc: "\<forall>c\<in>set ?cs. scalar c"
    using utf16_round_trip[OF units wf] by simp_all
  have bytes: "\<forall>b\<in>set ?B. b < 256"
    using sc utf8_of_scalar_bytes by auto
  have same: "map unat (map of_nat ?B :: byte list) = ?B"
    using bytes by (rule bytes_of_nat_unat)
  have dec: "utf8_scalars 0 0 0x80 0xBF ?B = ?cs"
    using sc by (rule decode_scalars)
  have bom: "strip_bom ?cs = ?cs"
  proof (cases s)
    case Nil
    then show ?thesis by (simp add: strip_bom_def)
  next
    case (Cons w ws)
    with assms have "w \<noteq> 0xFEFF" by (simp add: unicodeText_def)
    then have "unat w \<noteq> 0xFEFF"
    proof -
      assume ne: "w \<noteq> 0xFEFF"
      show ?thesis
      proof
        assume "unat w = 0xFEFF"
        then have "(of_nat (unat w) :: 16 word) = of_nat 0xFEFF" by simp
        then show False using ne by simp
      qed
    qed
    moreover have "wellFormed (unat w # map unat ws)" using wf Cons by simp
    ultimately show ?thesis unfolding Cons
      using strip_bom_wellFormed[of "unat w" "map unat ws"] by simp
  qed
  have "TextDecoder_decode (TextEncoder_encode s) = map of_nat ?us"
    unfolding TextDecoder_decode_def TextEncoder_encode_def same dec bom rt ..
  also have "\<dots> = s" by (simp add: map_idI comp_def)
  finally show ?thesis by (simp add: utf8Safe_def)
qed

lemma unpaired_surrogate_unsafe: "\<not> utf8Safe [0xD800]"
  by (simp add: utf8Safe_def TextEncoder_encode_def TextDecoder_decode_def utf8_of_scalar_def
      utf16_of_scalar_def strip_bom_def)

lemma leading_bom_unsafe: "\<not> utf8Safe [0xFEFF, 0x61]"
  by (simp add: utf8Safe_def TextEncoder_encode_def TextDecoder_decode_def utf8_of_scalar_def
      utf16_of_scalar_def strip_bom_def)

lemma bindingUnicode_safe: "bindingUnicode pc \<Longrightarrow> bindingSafe pc"
  by (cases pc rule: bindingUnicode.cases) (simp_all add: unicodeText_safe)

section \<open>Round trip of safe maps\<close>

lemma round_trip_safe:
  assumes "distinct (map fst m)"
    and "\<forall>pc\<in>set m. bindingSafe pc"
    and "\<forall>(p, c)\<in>set m. length (TextEncoder_encode p) \<le> 65535"
    and "serializedSize m < 2147483648"
  shows "roundTrip m = Inr m"
proof -
  let ?rs = "map (\<lambda>pc. entryRaw (toEntry pc)) m"
  have ser: "serializeFileMap m = Inr (containerOf ?rs)"
    using assms(3,4) by (rule serializeFileMap_ok)
  have paths: "\<forall>r\<in>set ?rs. length (fst r) < 65536"
    using assms(3) by (auto simp add: entryRaw_def)
  have size: "length (containerOf ?rs) < 2147483648"
    using assms(4) by (simp only: length_containerOf_entries)
  have "deserializeFileMap (containerOf ?rs) = Inr (storeAll [] ?rs)"
    using paths size by (rule deserialize_containerOf)
  also have "storeAll [] ?rs = [] @ m"
    using assms(1,2) by (intro storeAll_safe) simp_all
  finally show ?thesis using ser by (simp add: roundTrip_def)
qed

section \<open>When the encoder's checks fail\<close>

lemma collectEntries_Inl:
  "collectEntries m acc = Inl e \<Longrightarrow>
     (e = PATH_TOO_LONG \<and> (\<exists>(p, c)\<in>set m. 65535 < length p))
     \<or> (e = CONTENT_TOO_LARGE
          \<and> 4294967295 < sum_list (map (\<lambda>e. length (content e)) acc)
                + sum_list (map (\<lambda>pc. length (content (toEntry pc))) m))"
proof (induction m arbitrary: acc)
  case Nil
  then show ?case by simp
next
  case (Cons pc m)
  obtain p c where pc: "pc = (p, c)" by (cases pc)
  have raw: "raw_length c \<le> length (content (toEntry (p, c)))"
    by (cases c) (simp_all add: encodeText_def length_TextEncoder_encode)
  show ?case
  proof (cases "65535 < length p")
    case True
    with Cons.prems show ?thesis by (auto simp add: pc)
  next
    case False
    note short = this
    show ?thesis
    proof (cases "sum_list (map (\<lambda>e. length (content e)) acc) + raw_length c > 0xffffffff")
      case True
      with short Cons.prems raw show ?thesis by (auto simp add: pc)
    next
      case False
      with short Cons.prems have "collectEntries m (acc @ [toEntry (p, c)]) = Inl e"
        by (simp add: pc)
      from Cons.IH[OF this] show ?thesis by (auto simp add: pc)
    qed
  qed
qed

lemma path_too_long_only_for_long_paths:
  assumes "\<forall>(p, c)\<in>set m. length (TextEncoder_encode p) \<le> 65535"
  shows "serializeFileMap m \<noteq> Inl PATH_TOO_LONG"
proof
  assume "serializeFileMap m = Inl PATH_TOO_LONG"
  then have "collectEntries m [] = Inl PATH_TOO_LONG"
    by (simp add: serializeFileMap_eq split: sum.splits)
  from collectEntries_Inl[OF this] obtain p c where "(p, c) \<in> set m" "65535 < length p"
    by auto
  moreover have "length p \<le> length (TextEncoder_encode p)"
    by (rule length_TextEncoder_encode)
  ultimately show False using assms by fastforce
qed

lemma content_too_large_only_for_large_content:
  assumes "sum_list (map (\<lambda>pc. length (content (toEntry pc))) m) \<le> 4294967295"
  shows "serializeFileMap m \<noteq> Inl CONTENT_TOO_LARGE"
proof
  assume "serializeFileMap m = Inl CONTENT_TOO_LARGE"
  then have "collectEntries m [] = Inl CONTENT_TOO_LARGE"
    by (simp add: serializeFileMap_eq split: sum.splits)
  from collectEntries_Inl[OF this] assms show False by simp
qed

section \<open>A truncation that is not detected\<close>

text \<open>
  A serialized buffer of \<open>2^32 + 22\<close> bytes holds 22 in its total length field. Cut
  down to its first 22 bytes it passes the length check, its content length decodes to
  \<open>-1\<close>, and the decoder returns a map with one empty binding.
\<close>

lemma truncation_beyond_4GiB:
  "serializeFileMap [([0x61], Binary (replicate 4294967295 0))]
     = Inr (containerOf [([0x61], 1, replicate 4294967295 0)])
   \<and> length (containerOf [([0x61], 1, replicate 4294967295 0)]) = 4294967318
   \<and> deserializeFileMap (take (4294967318 - 4294967296)
          (containerOf [([0x61], 1, replicate 4294967295 0)])) = Inr [([], Binary [])]"
proof -
  have ser: "serializeFileMap [([0x61], Binary (replicate 4294967295 0))]
           = Inr (containerOf [([0x61], 1, replicate 4294967295 0)])"
    by (rule serializeFileMap_single_binary) simp
  have len: "length (containerOf [([0x61], 1, replicate 4294967295 0)]) = 4294967318"
    by (simp add: length_containerOf length_encodeLE_loop)
  have tk: "take (4294967318 - 4294967296) (containerOf [([0x61], 1, replicate 4294967295 0)])
        = [115, 113, 117, 105, 114, 112, 0, 22, 0, 0, 0, 1, 0, 0, 0, 1, 0, 255, 255, 255, 255, 1]"
    by (simp add: containerOf_def HEADER_def encodeLE_loop_4 encodeLE_loop_2)
  have dec: "TextDecoder_decode [] = []"
    by (simp add: TextDecoder_decode_def strip_bom_def)
  have des: "deserializeFileMap
      [115, 113, 117, 105, 114, 112, 0, 22, 0, 0, 0, 1, 0, 0, 0, 1, 0, 255, 255, 255, 255, 1]
      = Inr [([], Binary [])]"
    by (simp add: deserializeFileMap_def HEADER_def js_index_def js_slice_def decodeLE_4 decodeLE_2
        word_cat_eq dec map_set_def)
  show ?thesis using ser len tk des by simp
qed

text \<open>
  From \<open>2^31\<close> serialized bytes on the decoder rejects what the encoder wrote: one
  binary content of \<open>2^31\<close> bytes does not come back.
\<close>

lemma round_trip_fails_from_2GiB:
  "roundTrip [([0x61], Binary (replicate 2147483648 0))] = Inl CORRUPTED_DATA"
proof -
  have ser: "serializeFileMap [([0x61], Binary (replicate 2147483648 0))]
           = Inr (containerOf [([0x61], 1, replicate 2147483648 0)])"
    by (rule serializeFileMap_single_binary) simp
  have "deserializeFileMap (containerOf [([0x61], 1, replicate 2147483648 0)]) = Inl CORRUPTED_DATA"
    by (rule deserialize_too_long)
      (simp_all add: take_HEADER_containerOf length_containerOf length_encodeLE_loop)
  then show ?thesis using ser by (simp add: roundTrip_def)
qed

section \<open>The claims\<close>

subsection \<open>The empty collection\<close>

text \<open>
  C4. Serializing the empty collection gives exactly 15 bytes: the 7-byte magic header,
  the total length 15 and the entry count 0, each as four little-endian bytes, and no
  entry record. Deserializing that buffer gives the empty collection.
\<close>

theorem empty_collection:
  "serializeFileMap [] = Inr (HEADER @ [15, 0, 0, 0] @ [0, 0, 0, 0])
   \<and> length (HEADER @ [15, 0, 0, 0] @ [0, 0, 0, 0]) = 15
   \<and> length HEADER = 7
   \<and> encodeLE 15 4 = Inr [15, 0, 0, 0]
   \<and> encodeLE 0 4 = Inr [0, 0, 0, 0]
   \<and> deserializeFileMap (HEADER @ [15, 0, 0, 0] @ [0, 0, 0, 0]) = Inr []"
proof -
  have ser: "serializeFileMap [] = Inr (HEADER @ [15, 0, 0, 0] @ [0, 0, 0, 0])"
    by (simp add: serializeFileMap_eq containerOf_def encodeLE_loop_4)
  have enc: "encodeLE 15 4 = Inr [15, 0, 0, 0] \<and> encodeLE 0 4 = Inr [0, 0, 0, 0]"
    by (simp add: encodeLE_def encodeLE_loop_4)
  have des: "deserializeFileMap (HEADER @ [15, 0, 0, 0] @ [0, 0, 0, 0]) = Inr []"
    by (simp add: deserializeFileMap_def HEADER_def js_index_def js_slice_def decodeLE_4
        word_cat_eq)
  show ?thesis using ser enc des by (simp add: length_HEADER)
qed

subsection \<open>Header corruption\<close>

text \<open>
  C5. Whenever the first 7 bytes of a buffer differ from the magic header,
  \<open>deserializeFileMap\<close> fails with \<open>INVALID_HEADER\<close>; a buffer shorter than 7
  bytes is such a buffer; and so is a buffer that \<open>serializeFileMap\<close> produced in
  which one of the first 7 bytes has been changed to a different value.
\<close>

theorem header_corruption:
  "(take 7 data \<noteq> HEADER \<longrightarrow> deserializeFileMap data = Inl INVALID_HEADER)
   \<and> (length data < 7 \<longrightarrow> deserializeFileMap data = Inl INVALID_HEADER)
   \<and> (serializeFileMap m = Inr buf \<and> i < 7 \<and> b \<noteq> buf ! i
        \<longrightarrow> deserializeFileMap (buf[i := b]) = Inl INVALID_HEADER)"
proof (intro conjI impI)
  assume "take 7 data \<noteq> HEADER"
  then show "deserializeFileMap data = Inl INVALID_HEADER" by (rule deserialize_bad_header)
next
  assume "length data < 7"
  then have "length (take 7 data) \<noteq> length HEADER" by (simp add: length_HEADER)
  then have "take 7 data \<noteq> HEADER" by (metis (full_types))
  then show "deserializeFileMap data = Inl INVALID_HEADER" by (rule deserialize_bad_header)
next
  assume a: "serializeFileMap m = Inr buf \<and> i < 7 \<and> b \<noteq> buf ! i"
  then obtain rs where buf: "buf = containerOf rs"
    using serializeFileMap_container by blast
  have len: "i < length (take 7 buf)"
    using a by (simp add: buf take_HEADER_containerOf length_HEADER)
  have "take 7 (buf[i := b]) ! i = b"
    using len by (simp add: take_update_swap)
  moreover have "take 7 buf ! i = buf ! i" using a by simp
  ultimately have "take 7 (buf[i := b]) ! i \<noteq> HEADER ! i"
    using a by (simp add: buf take_HEADER_containerOf)
  then have "take 7 (buf[i := b]) \<noteq> HEADER" by metis
  then show "deserializeFileMap (buf[i := b]) = Inl INVALID_HEADER"
    by (rule deserialize_bad_header)
qed

theorem header_corruption_witness:
  "deserializeFileMap [0x73, 0x71, 0x75, 0x69, 0x72, 0x70, 0x01, 15, 0, 0, 0, 0, 0, 0, 0]
     = Inl INVALID_HEADER
   \<and> deserializeFileMap [0x73, 0x71, 0x75] = Inl INVALID_HEADER
   \<and> deserializeFileMap ((HEADER @ [15, 0, 0, 0] @ [0, 0, 0, 0])[3 := 0x68]) = Inl INVALID_HEADER"
proof -
  have ser: "serializeFileMap [] = Inr (HEADER @ [15, 0, 0, 0] @ [0, 0, 0, 0])"
    by (simp add: serializeFileMap_eq containerOf_def encodeLE_loop_4)
  have a: "deserializeFileMap [0x73, 0x71, 0x75, 0x69, 0x72, 0x70, 0x01, 15, 0, 0, 0, 0, 0, 0, 0]
     = Inl INVALID_HEADER"
    using header_corruption[of "[0x73, 0x71, 0x75, 0x69, 0x72, 0x70, 0x01, 15, 0, 0, 0, 0, 0, 0, 0]"]
    by (simp add: HEADER_def)
  have b: "deserializeFileMap [0x73, 0x71, 0x75] = Inl INVALID_HEADER"
    using header_corruption[of "[0x73, 0x71, 0x75]"] by simp
  have c: "deserializeFileMap ((HEADER @ [15, 0, 0, 0] @ [0, 0, 0, 0])[3 := 0x68]) = Inl INVALID_HEADER"
    using header_corruption[of _ "[]" "HEADER @ [15, 0, 0, 0] @ [0, 0, 0, 0]" 3 "0x68"] ser
    by (simp add: HEADER_def)
  show ?thesis using a b c by simp
qed

subsection \<open>Errors of the decompression step\<close>

text \<open>
  C8. During \<open>unzip\<close>, a failure of the gzip step that is not a \<open>SqurpError\<close>
  reaches the caller as \<open>CORRUPTED_DATA\<close>, and a failure that is a \<open>SqurpError\<close>
  reaches the caller with its own code.
\<close>

theorem unzip_error_kinds:
  "(gzipStream data = Inl ForeignError \<longrightarrow> unzip gzipStream data = Inl CORRUPTED_DATA)
   \<and> (gzipStream data = Inl (SqurpError code) \<longrightarrow> unzip gzipStream data = Inl code)"
  by (simp add: unzip_def decompressWithGzip_def)

theorem unzip_error_kinds_witness:
  "unzip (\<lambda>d. if d = [] then Inl ForeignError else Inl (SqurpError UNEXPECTED_END)) []
     = Inl CORRUPTED_DATA
   \<and> unzip (\<lambda>d. if d = [] then Inl ForeignError else Inl (SqurpError UNEXPECTED_END)) [0x1f]
     = Inl UNEXPECTED_END"
  using unzip_error_kinds[of "\<lambda>d. if d = [] then Inl ForeignError else Inl (SqurpError UNEXPECTED_END)" "[]"]
    unzip_error_kinds[of "\<lambda>d. if d = [] then Inl ForeignError else Inl (SqurpError UNEXPECTED_END)" "[0x1f]" UNEXPECTED_END]
  by simp

subsection \<open>Signed decoding of length fields\<close>

text \<open>
  C10. \<open>decodeLE\<close> on four bytes whose unsigned little-endian value is at least
  \<open>2^31\<close> returns that value minus \<open>2^32\<close>, a negative number. So a buffer
  with the magic header and a length of at least \<open>2^31\<close> bytes is rejected with
  \<open>CORRUPTED_DATA\<close>, whatever its total-length field holds, in particular when the
  field holds the true length.
\<close>

theorem decodeLE_signed:
  "(2147483648 \<le> uint a + 256 * uint b + 65536 * uint c + 16777216 * uint d \<longrightarrow>
      decodeLE [a, b, c, d]
        = uint a + 256 * uint b + 65536 * uint c + 16777216 * uint d - 4294967296
      \<and> decodeLE [a, b, c, d] < 0)
   \<and> (take 7 data = HEADER \<and> 2147483648 \<le> length data \<longrightarrow>
        deserializeFileMap data = Inl CORRUPTED_DATA)"
proof (intro conjI impI)
  let ?V = "uint a + 256 * uint b + 65536 * uint c + 16777216 * uint d"
  assume big: "2147483648 \<le> ?V"
  have "uint a < 256" "uint b < 256" "uint c < 256" "uint d < 256"
    using uint_lt2p[of a] uint_lt2p[of b] uint_lt2p[of c] uint_lt2p[of d] by simp_all
  then have lt: "?V < 4294967296" by simp
  have "decodeLE [a, b, c, d] = decodeLE (encodeLE_loop ?V 4)"
    by (simp only: le32_encode)
  also have "\<dots> = ?V - 4294967296"
    using big lt by (rule decodeLE_encodeLE_4_big)
  finally show v: "decodeLE [a, b, c, d] = ?V - 4294967296" .
  show "decodeLE [a, b, c, d] < 0" using v lt by simp
next
  assume "take 7 data = HEADER \<and> 2147483648 \<le> length data"
  then show "deserializeFileMap data = Inl CORRUPTED_DATA"
    using deserialize_too_long by blast
qed

theorem decodeLE_signed_witness:
  "decodeLE [0, 0, 0, 0x80] = - 2147483648
   \<and> decodeLE [0, 0, 0, 0x80] < 0
   \<and> deserializeFileMap (HEADER @ replicate 2147483641 0) = Inl CORRUPTED_DATA"
  using decodeLE_signed[of 0 0 0 "0x80" "HEADER @ replicate 2147483641 0"]
  by (simp add: length_HEADER)

subsection \<open>The flag byte\<close>

text \<open>
  C9. Decoding a container with one entry record gives one binding whose content is the
  raw content bytes when the flag byte is exactly 1, and the UTF-8-decoded content
  bytes, a string, for every other flag byte (0, and 2 to 255 alike).
\<close>

theorem flag_byte_decides_kind:
  assumes "length pathBytes < 65536"
    and "length (containerOf [(pathBytes, flag, cont)]) < 2147483648"
  shows "deserializeFileMap (containerOf [(pathBytes, flag, cont)]) =
           Inr [(TextDecoder_decode pathBytes,
                 if flag = 1 then Binary cont else Text (TextDecoder_decode cont))]"
  using deserialize_containerOf[of "[(pathBytes, flag, cont)]"] assms
  by (simp add: storeAll_def map_set_def decodeText_def)

theorem flag_byte_decides_kind_witness:
  "deserializeFileMap
     [115, 113, 117, 105, 114, 112, 0, 25, 0, 0, 0, 1, 0, 0, 0,
      1, 0, 2, 0, 0, 0, 2, 97, 104, 105]
     = Inr [([0x61], Text [0x68, 0x69])]
   \<and> deserializeFileMap
     [115, 113, 117, 105, 114, 112, 0, 25, 0, 0, 0, 1, 0, 0, 0,
      1, 0, 2, 0, 0, 0, 255, 97, 195, 169]
     = Inr [([0x61], Text [0xE9])]
   \<and> deserializeFileMap
     [115, 113, 117, 105, 114, 112, 0, 25, 0, 0, 0, 1, 0, 0, 0,
      1, 0, 2, 0, 0, 0, 1, 97, 195, 169]
     = Inr [([0x61], Binary [195, 169])]"
proof -
  have dec: "TextDecoder_decode [0x61] = [0x61]" "TextDecoder_decode [0x68, 0x69] = [0x68, 0x69]"
    "TextDecoder_decode [0xC3, 0xA9] = [0xE9]"
    by (simp_all add: TextDecoder_decode_def utf16_of_scalar_def strip_bom_def)
  have a: "deserializeFileMap
     [115, 113, 117, 105, 114, 112, 0, 25, 0, 0, 0, 1, 0, 0, 0,
      1, 0, 2, 0, 0, 0, 2, 97, 104, 105]
     = Inr [([0x61], Text [0x68, 0x69])]"
    using flag_byte_decides_kind[of "[0x61]" 2 "[0x68, 0x69]"]
    by (simp add: containerOf_def HEADER_def encodeLE_loop_4 encodeLE_loop_2 dec)
  have b: "deserializeFileMap
     [115, 113, 117, 105, 114, 112, 0, 25, 0, 0, 0, 1, 0, 0, 0,
      1, 0, 2, 0, 0, 0, 255, 97, 195, 169]
     = Inr [([0x61], Text [0xE9])]"
    using flag_byte_decides_kind[of "[0x61]" 255 "[0xC3, 0xA9]"]
    by (simp add: containerOf_def HEADER_def encodeLE_loop_4 encodeLE_loop_2 dec)
  have c: "deserializeFileMap
     [115, 113, 117, 105, 114, 112, 0, 25, 0, 0, 0, 1, 0, 0, 0,
      1, 0, 2, 0, 0, 0, 1, 97, 195, 169]
     = Inr [([0x61], Binary [195, 169])]"
    using flag_byte_decides_kind[of "[0x61]" 1 "[0xC3, 0xA9]"]
    by (simp add: containerOf_def HEADER_def encodeLE_loop_4 encodeLE_loop_2 dec)
  show ?thesis using a b c by simp
qed

subsection \<open>Records with the same path\<close>

text \<open>
  C7. A container whose records repeat a path is decoded without failure. The decoder
  stores the records in order with \<open>Map.set\<close>, so the keys of the result are
  pairwise different and the path of every record is bound to the content of the last
  record that carries this path.
\<close>

theorem duplicate_paths_last_wins:
  assumes "\<forall>r\<in>set rs. length (fst r) < 65536"
    and "length (containerOf rs) < 2147483648"
  shows "deserializeFileMap (containerOf rs) = Inr (storeAll [] rs)
         \<and> distinct (map fst (storeAll [] rs))
         \<and> (\<forall>r\<in>set rs. map_of (storeAll [] rs) (recordPath r)
                = Some (recordContent (last (filter (\<lambda>q. recordPath q = recordPath r) rs))))"
  using deserialize_containerOf[OF assms] storeAll_last_wins[of _ rs "[]"]
    distinct_storeAll[of "[]" rs]
  by simp

theorem duplicate_paths_last_wins_witness:
  "deserializeFileMap
     [115, 113, 117, 105, 114, 112, 0, 43, 0, 0, 0, 3, 0, 0, 0,
      1, 0, 1, 0, 0, 0, 0, 97, 120,
      1, 0, 1, 0, 0, 0, 0, 98, 121,
      1, 0, 2, 0, 0, 0, 1, 97, 1, 2]
     = Inr [([0x61], Binary [1, 2]), ([0x62], Text [0x79])]
   \<and> map_of [([0x61 :: 16 word], Binary [1, 2]), ([0x62], Text [0x79])] [0x61]
     = Some (Binary [1, 2])"
proof -
  have dec: "TextDecoder_decode [0x61] = [0x61]" "TextDecoder_decode [0x62] = [0x62]"
    "TextDecoder_decode [0x78] = [0x78]" "TextDecoder_decode [0x79] = [0x79]"
    by (simp_all add: TextDecoder_decode_def utf16_of_scalar_def strip_bom_def)
  show ?thesis
    using duplicate_paths_last_wins[of "[([0x61], 0, [0x78]), ([0x62], 0, [0x79]), ([0x61], 1, [1, 2])]"]
    by (simp add: containerOf_def HEADER_def encodeLE_loop_4 encodeLE_loop_2 dec storeAll_def
        map_set_def decodeText_def)
qed

subsection \<open>Truncation\<close>

text \<open>
  C3, as the code has it. Let \<open>serializeFileMap\<close> return a buffer of fewer than
  \<open>2^32\<close> bytes, and remove \<open>k\<close> trailing bytes, \<open>k\<close> at least 1 and at most
  the length. Then \<open>deserializeFileMap\<close> fails: with \<open>INVALID_HEADER\<close> when fewer
  than 7 bytes are left, with \<open>UNEXPECTED_END\<close> when 7 to 10 bytes are left, and with
  \<open>CORRUPTED_DATA\<close> when 11 or more are left. No result is returned.
\<close>

theorem truncation_rejected:
  assumes "serializeFileMap m = Inr buf"
    and "length buf < 4294967296"
    and "0 < k" and "k \<le> length buf"
  shows "deserializeFileMap (take (length buf - k) buf) =
           Inl (if length buf - k < 7 then INVALID_HEADER
                else if length buf - k < 11 then UNEXPECTED_END
                else CORRUPTED_DATA)"
proof -
  from assms(1) obtain rs where "buf = containerOf rs"
    using serializeFileMap_container by blast
  with assms(2-4) show ?thesis using truncated_container by simp
qed

theorem truncation_rejected_witness:
  "deserializeFileMap (take (15 - 1) (HEADER @ [15, 0, 0, 0] @ [0, 0, 0, 0])) = Inl CORRUPTED_DATA
   \<and> deserializeFileMap (take (15 - 5) (HEADER @ [15, 0, 0, 0] @ [0, 0, 0, 0])) = Inl UNEXPECTED_END
   \<and> deserializeFileMap (take (15 - 9) (HEADER @ [15, 0, 0, 0] @ [0, 0, 0, 0])) = Inl INVALID_HEADER"
proof -
  have ser: "serializeFileMap [] = Inr (HEADER @ [15, 0, 0, 0] @ [0, 0, 0, 0])"
    by (simp add: serializeFileMap_eq containerOf_def encodeLE_loop_4)
  have len: "length (HEADER @ [15, 0, 0, 0] @ [0, 0, 0, 0]) = 15"
    by (simp add: length_HEADER)
  show ?thesis
    using truncation_rejected[OF ser, of 1] truncation_rejected[OF ser, of 5]
      truncation_rejected[OF ser, of 9]
    unfolding len by simp
qed

text \<open>
  The claim as stated names only \<open>UNEXPECTED_END\<close>, \<open>ENTRY_EXCEEDS_BOUNDS\<close> and
  \<open>CORRUPTED_DATA\<close>. Removing 9 of the 15 bytes of the serialized empty collection
  leaves 6 bytes, and the decoder fails with \<open>INVALID_HEADER\<close>.
\<close>

theorem truncation_counterexample:
  "serializeFileMap [] = Inr (HEADER @ [15, 0, 0, 0] @ [0, 0, 0, 0])
   \<and> (0 :: nat) < 9
   \<and> deserializeFileMap (take (length (HEADER @ [15, 0, 0, 0] @ [0, 0, 0, 0]) - 9)
          (HEADER @ [15, 0, 0, 0] @ [0, 0, 0, 0])) = Inl INVALID_HEADER
   \<and> Inl INVALID_HEADER \<noteq> (Inl UNEXPECTED_END :: jsmap result)
   \<and> Inl INVALID_HEADER \<noteq> (Inl ENTRY_EXCEEDS_BOUNDS :: jsmap result)
   \<and> Inl INVALID_HEADER \<noteq> (Inl CORRUPTED_DATA :: jsmap result)"
proof -
  have ser: "serializeFileMap [] = Inr (HEADER @ [15, 0, 0, 0] @ [0, 0, 0, 0])"
    by (simp add: serializeFileMap_eq containerOf_def encodeLE_loop_4)
  have des: "deserializeFileMap (take (length (HEADER @ [15, 0, 0, 0] @ [0, 0, 0, 0]) - 9)
          (HEADER @ [15, 0, 0, 0] @ [0, 0, 0, 0])) = Inl INVALID_HEADER"
    by (simp add: deserializeFileMap_def HEADER_def js_index_def)
  show ?thesis using ser des by simp
qed

subsection \<open>The path length check\<close>

text \<open>
  C2, at an input where the code departs from it. The path made of 32768 copies of
  U+00E9 has 32768 code units and a UTF-8 encoding of 65536 bytes. \<open>serializeFileMap\<close>
  compares \<open>path.length\<close>, the number of code units, with 65535, so it does not fail
  with \<open>PATH_TOO_LONG\<close>: it returns a buffer whose 2-byte path length field holds 0.
\<close>

theorem path_length_counts_code_units:
  "length (TextEncoder_encode (replicate 32768 0xE9)) = 65536
   \<and> serializeFileMap [(replicate 32768 0xE9, Text [])] =
       Inr (HEADER @ [0x16, 0, 1, 0] @ [1, 0, 0, 0] @
            [0, 0] @ [0, 0, 0, 0] @ [0] @ TextEncoder_encode (replicate 32768 0xE9))"
proof -
  have len: "length (TextEncoder_encode (replicate 32768 0xE9)) = 65536"
    by (simp add: encode_e_acute length_concat_replicate)
  have enc0: "encodeText [] = []"
    by (simp add: encodeText_def TextEncoder_encode_def)
  have col: "collectEntries [(replicate 32768 0xE9, Text [])] [] =
      Inr [\<lparr>path = replicate 32768 0xE9, isBinary = False, content = []\<rparr>]"
    by (simp add: enc0)
  have ser: "serializeFileMap [(replicate 32768 0xE9, Text [])] =
       Inr (HEADER @ [0x16, 0, 1, 0] @ [1, 0, 0, 0] @
            [0, 0] @ [0, 0, 0, 0] @ [0] @ TextEncoder_encode (replicate 32768 0xE9))"
    by (simp add: serializeFileMap_eq enc0 containerOf_def entryRaw_def len
        encodeLE_loop_4 encodeLE_loop_2)
  show ?thesis using len ser by simp
qed

subsection \<open>The content size check\<close>

text \<open>
  C6, at an input where the code departs from it. A binary content of
  \<open>2^32 - 2\<close> bytes followed by the text content U+00E9, 2 bytes in UTF-8, makes the
  sum of the content byte lengths \<open>2^32\<close>. The check adds \<open>content.length\<close> of the
  string, 1 code unit, before the string is encoded, finds \<open>2^32 - 1\<close>, and
  \<open>serializeFileMap\<close> returns a buffer instead of failing with
  \<open>CONTENT_TOO_LARGE\<close>.
\<close>

theorem content_size_counts_code_units:
  "length (replicate 4294967294 (0 :: byte)) + length (encodeText [0xE9]) = 4294967296
   \<and> serializeFileMap [([0x61], Binary (replicate 4294967294 0)), ([0x62], Text [0xE9])]
       = Inr (containerOf [([0x61], 1, replicate 4294967294 0), ([0x62], 0, [0xC3, 0xA9])])"
proof -
  have enc: "encodeText [0xE9] = [0xC3, 0xA9]"
    by (simp add: encodeText_def TextEncoder_encode_def utf8_of_scalar_def)
  have pa: "TextEncoder_encode [0x61] = [0x61]" "TextEncoder_encode [0x62] = [0x62]"
    by (simp_all add: TextEncoder_encode_def utf8_of_scalar_def)
  have col: "collectEntries [([0x61], Binary (replicate 4294967294 0)), ([0x62], Text [0xE9])] [] =
      Inr [\<lparr>path = [0x61], isBinary = True, content = replicate 4294967294 0\<rparr>,
           \<lparr>path = [0x62], isBinary = False, content = [0xC3, 0xA9]\<rparr>]"
    by (simp add: enc)
  show ?thesis
    by (simp add: serializeFileMap_eq col entryRaw_def enc pa)
qed

subsection \<open>Round trip\<close>

text \<open>
  C1, as the code has it. Let a map have pairwise different paths, let every path and
  every text content be a well-formed string that does not begin with U+FEFF, let the
  UTF-8 encoding of every path have at most 65535 bytes, and let the serialized map
  have fewer than \<open>2^31\<close> bytes. Then \<open>deserializeFileMap\<close> of
  \<open>serializeFileMap\<close> of the map succeeds and returns the map itself: the same paths,
  the same contents with the same kind, in the same order.
\<close>

theorem round_trip_small:
  assumes "distinct (map fst m)"
    and "\<forall>pc\<in>set m. bindingUnicode pc"
    and "\<forall>(p, c)\<in>set m. length (TextEncoder_encode p) \<le> 65535"
    and "serializedSize m < 2147483648"
  shows "roundTrip m = Inr m"
proof -
  have "\<forall>pc\<in>set m. bindingSafe pc"
    using assms(2) bindingUnicode_safe by blast
  with assms(1) show ?thesis
    using assms(3,4) by (rule round_trip_safe)
qed

theorem round_trip_small_witness:
  "roundTrip [([0x61], Text [0x68, 0xE9]), ([0xD83D, 0xDE80], Binary [0, 255])]
     = Inr [([0x61], Text [0x68, 0xE9]), ([0xD83D, 0xDE80], Binary [0, 255])]"
proof -
  have enc: "TextEncoder_encode [0x61] = [0x61]"
    "TextEncoder_encode [0x68, 0xE9] = [0x68, 0xC3, 0xA9]"
    "TextEncoder_encode [0xD83D, 0xDE80] = [0xF0, 0x9F, 0x9A, 0x80]"
    by (simp_all add: TextEncoder_encode_def utf8_of_scalar_def)
  show ?thesis
    using round_trip_small[of "[([0x61], Text [0x68, 0xE9]), ([0xD83D, 0xDE80], Binary [0, 255])]"]
    by (simp add: unicodeText_def enc serializedSize_def entryRaw_def encodeText_def
        length_encodeLE_loop)
qed

text \<open>
  The claim as stated allows a total content of \<open>2^32 - 1\<close> bytes. One binary
  content of that size under the path \<open>a\<close> serializes to \<open>2^32 + 22\<close> bytes, which
  the 4-byte total length field cannot hold, and decoding fails with
  \<open>CORRUPTED_DATA\<close>.
\<close>

theorem round_trip_counterexample:
  "length (TextEncoder_encode [0x61]) = 1
   \<and> length (replicate 4294967295 (0 :: byte)) = 4294967295
   \<and> roundTrip [([0x61], Binary (replicate 4294967295 0))] = Inl CORRUPTED_DATA"
proof -
  have pa: "TextEncoder_encode [0x61] = [0x61]"
    by (simp add: TextEncoder_encode_def utf8_of_scalar_def)
  have ser: "serializeFileMap [([0x61], Binary (replicate 4294967295 0))]
           = Inr (containerOf [([0x61], 1, replicate 4294967295 0)])"
    by (rule serializeFileMap_single_binary) simp
  have "deserializeFileMap (containerOf [([0x61], 1, replicate 4294967295 0)]) = Inl CORRUPTED_DATA"
    by (rule deserialize_too_long) (simp_all add: take_HEADER_containerOf length_containerOf length_encodeLE_loop)
  then show ?thesis using ser pa by (simp add: roundTrip_def)
qed

end
